theory Spec2Isabelle
  imports Main "HOL-Library.Word" "HOL-Library.Multiset" "HOL-Library.Sublist"
begin

section \<open>JavaScript strings\<close>

text \<open>
  A JavaScript string is a sequence of UTF-16 code units, and the regular expressions of
  the translation modules (none has the \<open>u\<close> flag) work on code units. A string is
  therefore a list of 16-bit words; \<open>js\<close> embeds an ASCII literal.
\<close>

type_synonym jschar = "16 word"
type_synonym jsstring = "jschar list"

definition js :: "string \<Rightarrow> jsstring" where
  "js s = map (\<lambda>c. of_nat (of_char c)) s"

text \<open>
  White space as \<open>String.prototype.trim\<close> and the regular expression class \<open>\s\<close>
  see it: the WhiteSpace and LineTerminator code points of ECMAScript.
\<close>

definition is_ws :: "jschar \<Rightarrow> bool" where
  "is_ws c \<longleftrightarrow> c \<in> {0x09, 0x0A, 0x0B, 0x0C, 0x0D, 0x20, 0xA0, 0x1680,
      0x2000, 0x2001, 0x2002, 0x2003, 0x2004, 0x2005, 0x2006, 0x2007, 0x2008, 0x2009, 0x200A,
      0x2028, 0x2029, 0x202F, 0x205F, 0x3000, 0xFEFF}"

definition trim :: "jsstring \<Rightarrow> jsstring" where
  "trim s = rev (dropWhile is_ws (rev (dropWhile is_ws s)))"

section \<open>Sentence buffer (sentenceBuffer.js)\<close>

text \<open>
  The class holds one field, \<open>buffer\<close>. The character class of \<open>sentenceEnders\<close> is
  \<open>[\<dots>.?!\n]\<close> with the three full-width marks U+3002, U+FF1F and U+FF01.
\<close>

definition sentenceEnders :: "jschar \<Rightarrow> bool" where
  "sentenceEnders c \<longleftrightarrow> c \<in> {0x3002, 0xFF1F, 0xFF01, 0x2E, 0x3F, 0x21, 0x0A}"

text \<open>
  The \<open>while\<close> loop of \<open>add\<close>: \<open>regex.exec\<close> finds the next ender at or after
  \<open>lastEnd\<close>, and the slice from \<open>lastEnd\<close> to just after it is pushed. \<open>scan cur s\<close> walks the
  rest \<open>s\<close> of the buffer, \<open>cur\<close> being the code units read since \<open>lastEnd\<close>; it returns the
  sentences and the final \<open>buffer.slice(lastEnd)\<close>.
\<close>

fun scan :: "jsstring \<Rightarrow> jsstring \<Rightarrow> jsstring list \<times> jsstring" where
  "scan cur [] = ([], cur)"
| "scan cur (c # s) =
     (if sentenceEnders c
      then (let (ss, r) = scan [] s in ((cur @ [c]) # ss, r))
      else scan (cur @ [c]) s)"

text \<open>
  \<open>add\<close> takes the buffer and the chunk and returns the sentences and the new buffer.
  The guard \<open>!text || typeof text !== 'string'\<close> is, on a string, the test for the empty
  string.
\<close>

definition add :: "jsstring \<Rightarrow> jsstring \<Rightarrow> jsstring list \<times> jsstring" where
  "add buffer text = (if text = [] then ([], buffer) else scan [] (buffer @ text))"

definition flush :: "jsstring \<Rightarrow> jsstring \<times> jsstring" where
  "flush buffer = (buffer, [])"

definition reset :: "jsstring \<Rightarrow> jsstring" where
  "reset buffer = []"

text \<open>A run of \<open>add\<close> calls: all sentences returned, in order, and the last buffer.\<close>

fun add_all :: "jsstring \<Rightarrow> jsstring list \<Rightarrow> jsstring list \<times> jsstring" where
  "add_all buffer [] = ([], buffer)"
| "add_all buffer (t # ts) =
     (let (ss, b) = add buffer t; (ss', b') = add_all b ts in (ss @ ss', b'))"

lemma scan_concat: "scan cur s = (ss, r) \<Longrightarrow> concat ss @ r = cur @ s"
proof (induction s arbitrary: cur ss r)
  case Nil
  then show ?case by simp
next
  case (Cons c s)
  show ?case
  proof (cases "sentenceEnders c")
    case True
    obtain ss' r' where sr: "scan [] s = (ss', r')" by (cases "scan [] s")
    with Cons.prems True have "ss = (cur @ [c]) # ss'" "r = r'" by auto
    moreover from Cons.IH[OF sr] have "concat ss' @ r' = s" by simp
    ultimately show ?thesis by simp
  next
    case False
    with Cons.prems have "scan (cur @ [c]) s = (ss, r)" by simp
    from Cons.IH[OF this] show ?thesis by simp
  qed
qed

lemma scan_ends:
  "scan cur s = (ss, r) \<Longrightarrow> x \<in> set ss \<Longrightarrow> x \<noteq> [] \<and> sentenceEnders (last x)"
proof (induction s arbitrary: cur ss r)
  case Nil
  then show ?case by simp
next
  case (Cons c s)
  show ?case
  proof (cases "sentenceEnders c")
    case True
    obtain ss' r' where sr: "scan [] s = (ss', r')" by (cases "scan [] s")
    with Cons.prems True have "ss = (cur @ [c]) # ss'" by auto
    with Cons.prems(2) consider "x = cur @ [c]" | "x \<in> set ss'" by auto
    then show ?thesis
    proof cases
      case 1
      with True show ?thesis by simp
    next
      case 2
      from Cons.IH[OF sr 2] show ?thesis .
    qed
  next
    case False
    with Cons.prems have "scan (cur @ [c]) s = (ss, r)" by simp
    from Cons.IH[OF this Cons.prems(2)] show ?thesis .
  qed
qed

lemma scan_rest: "scan cur s = (ss, r) \<Longrightarrow> \<forall>c \<in> set cur. \<not> sentenceEnders c \<Longrightarrow>
  \<forall>c \<in> set r. \<not> sentenceEnders c"
proof (induction s arbitrary: cur ss r)
  case Nil
  then show ?case by simp
next
  case (Cons c s)
  show ?case
  proof (cases "sentenceEnders c")
    case True
    obtain ss' r' where sr: "scan [] s = (ss', r')" by (cases "scan [] s")
    with Cons.prems True have "r = r'" by auto
    with Cons.IH[OF sr] show ?thesis by simp
  next
    case False
    with Cons.prems have "scan (cur @ [c]) s = (ss, r)" by simp
    from Cons.IH[OF this] False Cons.prems(2) show ?thesis by simp
  qed
qed


lemma add_concat: "add buffer t = (ss, b) \<Longrightarrow> concat ss @ b = buffer @ t"
  by (auto simp: add_def dest: scan_concat split: if_splits)

lemma add_ends: "add buffer t = (ss, b) \<Longrightarrow> x \<in> set ss \<Longrightarrow> x \<noteq> [] \<and> sentenceEnders (last x)"
  by (auto simp: add_def dest: scan_ends split: if_splits)

lemma add_all_concat: "add_all buffer ts = (ss, b) \<Longrightarrow> concat ss @ b = buffer @ concat ts"
proof (induction ts arbitrary: buffer ss b)
  case Nil
  then show ?case by simp
next
  case (Cons t ts)
  obtain s1 b1 where a: "add buffer t = (s1, b1)" by (cases "add buffer t")
  obtain s2 b2 where r: "add_all b1 ts = (s2, b2)" by (cases "add_all b1 ts")
  from Cons.prems a r have eq: "ss = s1 @ s2" "b = b2" by auto
  have "concat s1 @ b1 = buffer @ t" using a by (rule add_concat)
  moreover have "concat s2 @ b2 = b1 @ concat ts" using r by (rule Cons.IH)
  ultimately show ?case using eq by (metis append.assoc concat.simps(2) concat_append)
qed

lemma add_all_ends:
  "add_all buffer ts = (ss, b) \<Longrightarrow> x \<in> set ss \<Longrightarrow> x \<noteq> [] \<and> sentenceEnders (last x)"
proof (induction ts arbitrary: buffer ss b)
  case Nil
  then show ?case by simp
next
  case (Cons t ts)
  obtain s1 b1 where a: "add buffer t = (s1, b1)" by (cases "add buffer t")
  obtain s2 b2 where r: "add_all b1 ts = (s2, b2)" by (cases "add_all b1 ts")
  from Cons.prems a r have "x \<in> set s1 \<or> x \<in> set s2" by auto
  then show ?case using add_ends[OF a] Cons.IH[OF r] by blast
qed

text \<open>
  C6. Since the last \<open>reset\<close>, whatever chunks are given to \<open>add\<close>, the sentences returned
  so far followed by the buffer spell the chunks given so far, and every returned
  sentence is non-empty and ends with a sentence ender.
\<close>

theorem C6_sentence_buffer_conservation:
  "concat (fst (add_all (reset b0) ts)) @ snd (add_all (reset b0) ts) = concat ts \<and>
   (\<forall>x \<in> set (fst (add_all (reset b0) ts)). x \<noteq> [] \<and> sentenceEnders (last x))"
proof -
  obtain ss b where r: "add_all (reset b0) ts = (ss, b)" by (cases "add_all (reset b0) ts")
  have "concat ss @ b = concat ts" using add_all_concat[OF r] by (simp add: reset_def)
  moreover have "\<forall>x \<in> set ss. x \<noteq> [] \<and> sentenceEnders (last x)"
    using add_all_ends[OF r] by blast
  ultimately show ?thesis using r by simp
qed

theorem C6_sentence_buffer_witness:
  "fst (add_all (reset (js ''old'')) [js ''Hi. yo'', js ''u!x'']) = [js ''Hi.'', js '' you!''] \<and>
   snd (add_all (reset (js ''old'')) [js ''Hi. yo'', js ''u!x'']) = js ''x'' \<and>
   concat [js ''Hi.'', js '' you!''] @ js ''x'' = concat [js ''Hi. yo'', js ''u!x''] \<and>
   sentenceEnders (last (js ''Hi.'')) \<and> sentenceEnders (last (js '' you!''))"
proof -
  have e: "add_all (reset (js ''old'')) [js ''Hi. yo'', js ''u!x''] = ([js ''Hi.'', js '' you!''], js ''x'')"
    by (simp add: js_def add_def reset_def sentenceEnders_def)
  show ?thesis
    using C6_sentence_buffer_conservation[of "js ''old''" "[js ''Hi. yo'', js ''u!x'']"]
    unfolding e by simp
qed


section \<open>Code-block protector (codeBlockProtector.js)\<close>

subsection \<open>Template literals and object properties\<close>

text \<open>The decimal digits of an index, as the template literal \<open>${index++}\<close> writes them.\<close>

definition digit :: "nat \<Rightarrow> jschar" where
  "digit d = of_nat (48 + d)"

fun dec :: "nat \<Rightarrow> jsstring" where
  "dec n = (if n < 10 then [digit n] else dec (n div 10) @ [digit (n mod 10)])"

declare dec.simps [simp del]

definition key_block :: "nat \<Rightarrow> jsstring" where
  "key_block i = js ''__CODE_BLOCK_'' @ dec i @ js ''__''"

definition key_inline :: "nat \<Rightarrow> jsstring" where
  "key_inline i = js ''__INLINE_CODE_'' @ dec i @ js ''__''"

text \<open>
  The placeholder map is a plain object with string keys, none an array index, so
  \<open>Object.entries\<close> lists it in insertion order: an association list. The assignment
  \<open>placeholders[key] = match\<close> overwrites the value of a key that is there and appends a
  new key at the end.
\<close>

type_synonym placeholder_map = "(jsstring \<times> jsstring) list"

fun obj_set :: "jsstring \<Rightarrow> jsstring \<Rightarrow> placeholder_map \<Rightarrow> placeholder_map" where
  "obj_set k v [] = [(k, v)]"
| "obj_set k v (p # ps) = (if fst p = k then (k, v) # ps else p # obj_set k v ps)"

subsection \<open>The two regular expressions\<close>

definition backtick :: jschar where
  "backtick = 0x60"

definition fence :: jsstring where
  "fence = [backtick, backtick, backtick]"

text \<open>\<open>find_sub p s\<close>: the index of the first occurrence of \<open>p\<close> in \<open>s\<close>.\<close>

fun find_sub :: "'a list \<Rightarrow> 'a list \<Rightarrow> nat option" where
  "find_sub p [] = (if p = [] then Some 0 else None)"
| "find_sub p (c # s) =
     (if prefix p (c # s) then Some 0 else map_option Suc (find_sub p s))"

text \<open>
  A match of \<open>codeBlockRegex\<close> at the start of \<open>s\<close>: an opening fence, then as few code
  units as possible (\<open>[\s\S]*?\<close> is lazy), then the first closing fence. The result is
  the match and what follows it.
\<close>

definition match_fence :: "jsstring \<Rightarrow> (jsstring \<times> jsstring) option" where
  "match_fence s =
     (if prefix fence s
      then (case find_sub fence (drop 3 s) of
              None \<Rightarrow> None
            | Some k \<Rightarrow> Some (take (k + 6) s, drop (k + 6) s))
      else None)"

text \<open>
  A match of \<open>inlineCodeRegex\<close> at the start of \<open>s\<close>: a backtick, one or more code units
  that are not backticks (greedy: all of them), and a backtick.
\<close>

definition match_inline :: "jsstring \<Rightarrow> (jsstring \<times> jsstring) option" where
  "match_inline s =
     (case s of
        [] \<Rightarrow> None
      | c # r \<Rightarrow>
          (let run = takeWhile (\<lambda>x. x \<noteq> backtick) r;
               rest = dropWhile (\<lambda>x. x \<noteq> backtick) r
           in if c = backtick \<and> run \<noteq> [] \<and> rest \<noteq> []
              then Some (c # run @ [backtick], tl rest) else None))"

lemma find_sub_bound: "find_sub p s = Some k \<Longrightarrow> k + length p \<le> length s"
proof (induction s arbitrary: k)
  case Nil
  then show ?case by (simp split: if_splits)
next
  case (Cons c s)
  show ?case
  proof (cases "prefix p (c # s)")
    case True
    with Cons.prems have "k = 0" by simp
    with prefix_length_le[OF True] show ?thesis by simp
  next
    case False
    with Cons.prems obtain k' where "find_sub p s = Some k'" "k = Suc k'" by auto
    with Cons.IH show ?thesis by fastforce
  qed
qed

lemma match_fence_shorter: "match_fence s = Some (m, r) \<Longrightarrow> length r < length s"
  by (auto simp: match_fence_def fence_def split: if_splits option.splits dest: prefix_length_le)

lemma match_inline_shorter: "match_inline s = Some (m, r) \<Longrightarrow> length r < length s"
proof -
  assume a: "match_inline s = Some (m, r)"
  then obtain c t where s: "s = c # t" by (cases s) (auto simp: match_inline_def)
  from a s have "r = tl (dropWhile (\<lambda>x. x \<noteq> backtick) t)"
    by (auto simp: match_inline_def Let_def split: if_splits)
  moreover have "length (dropWhile (\<lambda>x. x \<noteq> backtick) t) \<le> length t"
    by (rule length_dropWhile_le)
  ultimately show ?thesis using s by simp
qed

subsection \<open>extract\<close>

text \<open>
  The method \<open>extract\<close> is \<open>extract_code\<close> here (\<open>extract\<close> is a command of Isabelle).
  \<open>text.replace(regex, callback)\<close> with a global regular expression: from left to right,
  each match is replaced by the callback's result and the search goes on after the
  match; a code unit where no match starts is copied. The callback's closure holds
  \<open>placeholders\<close> and \<open>index\<close>, which are passed along here and returned.
\<close>

function extract_blocks ::
  "placeholder_map \<times> nat \<Rightarrow> jsstring \<Rightarrow> jsstring \<times> placeholder_map \<times> nat" where
  "extract_blocks (ph, idx) [] = ([], ph, idx)"
| "extract_blocks (ph, idx) (c # s) =
     (case match_fence (c # s) of
        None \<Rightarrow> (let (clean, st) = extract_blocks (ph, idx) s in (c # clean, st))
      | Some (m, r) \<Rightarrow>
          (let key = key_block idx;
               (clean, st) = extract_blocks (obj_set key m ph, Suc idx) r
           in (key @ clean, st)))"
  by pat_completeness auto
termination
  by (relation "measure (\<lambda>(st, s). length s)") (auto dest: match_fence_shorter)

function extract_inline ::
  "placeholder_map \<times> nat \<Rightarrow> jsstring \<Rightarrow> jsstring \<times> placeholder_map \<times> nat" where
  "extract_inline (ph, idx) [] = ([], ph, idx)"
| "extract_inline (ph, idx) (c # s) =
     (case match_inline (c # s) of
        None \<Rightarrow> (let (clean, st) = extract_inline (ph, idx) s in (c # clean, st))
      | Some (m, r) \<Rightarrow>
          (let key = key_inline idx;
               (clean, st) = extract_inline (obj_set key m ph, Suc idx) r
           in (key @ clean, st)))"
  by pat_completeness auto
termination
  by (relation "measure (\<lambda>(st, s). length s)") (auto dest: match_inline_shorter)

record extracted =
  cleanText :: jsstring
  placeholders :: placeholder_map

text \<open>On a string, the guard \<open>!text || typeof text !== 'string'\<close> holds of the empty string only.\<close>

definition extract_code :: "jsstring \<Rightarrow> extracted" where
  "extract_code text =
     (if text = [] then \<lparr>cleanText = [], placeholders = []\<rparr>
      else (let (clean1, st1) = extract_blocks ([], 0) text;
                (clean2, ph2, idx2) = extract_inline st1 clean1
            in \<lparr>cleanText = clean2, placeholders = ph2\<rparr>))"

subsection \<open>restore\<close>

text \<open>
  \<open>s.split(sep)\<close> cuts \<open>s\<close> at the occurrences of \<open>sep\<close> found from left to right, none
  overlapping the one before; with the empty separator it cuts between all code units.
  \<open>cur\<close> is the piece being read.
\<close>

function split_from :: "jsstring \<Rightarrow> jsstring \<Rightarrow> jsstring \<Rightarrow> jsstring list" where
  "split_from sep cur [] = [cur]"
| "split_from sep cur (c # s) =
     (if sep \<noteq> [] \<and> prefix sep (c # s)
      then cur # split_from sep [] (drop (length sep) (c # s))
      else split_from sep (cur @ [c]) s)"
  by pat_completeness auto
termination
  by (relation "measure (\<lambda>(sep, cur, s). length s)") (auto simp: neq_Nil_conv)

definition js_split :: "jsstring \<Rightarrow> jsstring \<Rightarrow> jsstring list" where
  "js_split sep s = (if sep = [] then map (\<lambda>c. [c]) s else split_from sep [] s)"

fun js_join :: "jsstring \<Rightarrow> jsstring list \<Rightarrow> jsstring" where
  "js_join v [] = []"
| "js_join v [p] = p"
| "js_join v (p # q # ps) = p @ v @ js_join v (q # ps)"

text \<open>The body of the \<open>for\<close> loop over \<open>Object.entries(placeholders)\<close>.\<close>

definition restore_step :: "jsstring \<Rightarrow> jsstring \<times> jsstring \<Rightarrow> jsstring" where
  "restore_step result kv = js_join (snd kv) (js_split (fst kv) result)"

definition restore :: "jsstring \<Rightarrow> placeholder_map \<Rightarrow> jsstring" where
  "restore translatedText phs =
     (if translatedText = [] then []
      else if phs = [] then translatedText
      else foldl restore_step translatedText phs)"

subsection \<open>isCodeOnly\<close>

definition is_digit :: "jschar \<Rightarrow> bool" where
  "is_digit c \<longleftrightarrow> 0x30 \<le> c \<and> c \<le> 0x39"

text \<open>
  One alternative of \<open>/__CODE_BLOCK_\d+__|__INLINE_CODE_\d+__/\<close> at the start of \<open>s\<close>: the
  fixed head, one or more digits (all that follow: a shorter run would have to be followed by
  an underscore, and is followed by a digit), and two underscores. The result is what
  follows the match.
\<close>

definition match_key :: "jsstring \<Rightarrow> jsstring \<Rightarrow> jsstring option" where
  "match_key head s =
     (if prefix head s
      then (let t = drop (length head) s;
                ds = takeWhile is_digit t;
                u = dropWhile is_digit t
            in if ds \<noteq> [] \<and> prefix (js ''__'') u then Some (drop 2 u) else None)
      else None)"

definition match_placeholder :: "jsstring \<Rightarrow> jsstring option" where
  "match_placeholder s =
     (case match_key (js ''__CODE_BLOCK_'') s of
        Some r \<Rightarrow> Some r
      | None \<Rightarrow> match_key (js ''__INLINE_CODE_'') s)"

lemma match_key_shorter: "match_key head s = Some r \<Longrightarrow> head \<noteq> [] \<Longrightarrow> length r < length s"
proof -
  assume a: "match_key head s = Some r" and h: "head \<noteq> []"
  from a have p: "prefix head s" and r: "r = drop 2 (dropWhile is_digit (drop (length head) s))"
    by (auto simp: match_key_def Let_def split: if_splits)
  have "length (dropWhile is_digit (drop (length head) s)) \<le> length (drop (length head) s)"
    by (rule length_dropWhile_le)
  moreover from p h have "length (drop (length head) s) < length s"
    by (cases s) (auto simp: prefix_def)
  ultimately show ?thesis using r by simp
qed

lemma match_placeholder_shorter: "match_placeholder s = Some r \<Longrightarrow> length r < length s"
  by (auto simp: match_placeholder_def js_def split: option.splits dest!: match_key_shorter)

text \<open>\<open>cleanText.replace(/.../g, '')\<close>: every match is dropped.\<close>

function strip_placeholders :: "jsstring \<Rightarrow> jsstring" where
  "strip_placeholders [] = []"
| "strip_placeholders (c # s) =
     (case match_placeholder (c # s) of
        None \<Rightarrow> c # strip_placeholders s
      | Some r \<Rightarrow> strip_placeholders r)"
  by pat_completeness auto
termination
  by (relation "measure length") (auto dest: match_placeholder_shorter)

definition isCodeOnly :: "jsstring \<Rightarrow> bool" where
  "isCodeOnly text =
     (if text = [] then False
      else (let withoutPlaceholders = trim (strip_placeholders (cleanText (extract_code text)))
            in withoutPlaceholders = []))"


subsection \<open>Restoring what extract took out\<close>

text \<open>
  \<open>s.split(k).join(v)\<close> replaces the occurrences of \<open>k\<close> found from left to right by \<open>v\<close>.
\<close>

definition underscore :: jschar where "underscore = 0x5F"

fun repl :: "jsstring \<Rightarrow> jsstring \<Rightarrow> jsstring \<Rightarrow> jsstring" where
  "repl sep v [] = []"
| "repl sep v (c # s) =
     (if prefix sep (c # s) then v @ repl sep v (drop (length sep - 1) s) else c # repl sep v s)"

lemma split_from_nonempty: "split_from sep cur s \<noteq> []"
  by (induction sep cur s rule: split_from.induct) auto

lemma js_join_Cons: "ps \<noteq> [] \<Longrightarrow> js_join v (p # ps) = p @ v @ js_join v ps"
  by (cases ps) auto

lemma join_split_from: "sep \<noteq> [] \<Longrightarrow> js_join v (split_from sep cur s) = cur @ repl sep v s"
proof (induction sep cur s rule: split_from.induct)
  case (1 sep cur)
  then show ?case by simp
next
  case (2 sep cur c s)
  show ?case
  proof (cases "prefix sep (c # s)")
    case True
    from 2(3) obtain a sep' where sep: "sep = a # sep'" by (cases sep) auto
    have d: "drop (length sep) (c # s) = drop (length sep - 1) s" using sep by simp
    from True 2(3) 2(1) have "js_join v (split_from sep [] (drop (length sep) (c # s))) = repl sep v (drop (length sep) (c # s))"
      by simp
    with True 2(3) show ?thesis
      by (simp add: js_join_Cons split_from_nonempty d del: drop_Suc_Cons)
  next
    case False
    with 2 show ?thesis by simp
  qed
qed

lemma restore_step_repl: "k \<noteq> [] \<Longrightarrow> restore_step x (k, v) = repl k v x"
  by (simp add: restore_step_def js_split_def join_split_from)

definition is_key :: "jsstring \<Rightarrow> bool" where
  "is_key k \<longleftrightarrow> (\<exists>i. k = key_block i \<or> k = key_inline i)"

text \<open>Decimal numerals are strings of digits, and a number is read back from its numeral.\<close>

lemma unat_digit: "d < 10 \<Longrightarrow> unat (digit d) = 48 + d"
  by (simp add: digit_def unat_of_nat del: of_nat_add)

lemma is_digit_digit: "d < 10 \<Longrightarrow> is_digit (digit d)"
  by (simp add: is_digit_def word_le_nat_alt unat_digit)

lemma dec_nonempty: "dec n \<noteq> []"
  by (subst dec.simps) simp

lemma dec_digits: "c \<in> set (dec n) \<Longrightarrow> is_digit c"
proof (induction n arbitrary: c rule: dec.induct)
  case (1 n)
  show ?case
  proof (cases "n < 10")
    case True
    with 1(2) show ?thesis by (subst (asm) dec.simps) (simp add: is_digit_digit)
  next
    case False
    with 1(2) have "c \<in> set (dec (n div 10)) \<or> c = digit (n mod 10)"
      by (subst (asm) dec.simps) auto
    with 1(1)[OF False] show ?thesis by (auto simp: is_digit_digit)
  qed
qed

definition undec :: "jsstring \<Rightarrow> nat" where
  "undec s = foldl (\<lambda>a c. 10 * a + (unat c - 48)) 0 s"

lemma undec_dec: "undec (dec n) = n"
proof (induction n rule: dec.induct)
  case (1 n)
  show ?case
  proof (cases "n < 10")
    case True
    then show ?thesis by (subst dec.simps) (simp add: undec_def unat_digit)
  next
    case False
    have "undec (dec n) = 10 * undec (dec (n div 10)) + (unat (digit (n mod 10)) - 48)"
      using False by (subst dec.simps) (simp add: undec_def)
    with 1[OF False] show ?thesis by (simp add: unat_digit)
  qed
qed

lemma dec_inj: "dec m = dec n \<Longrightarrow> m = n"
  by (metis undec_dec)

lemma is_digit_not_us: "is_digit c \<Longrightarrow> c \<noteq> underscore"
  by (auto simp: is_digit_def underscore_def)

lemma is_digit_not_backtick: "is_digit c \<Longrightarrow> c \<noteq> backtick"
  by (auto simp: is_digit_def backtick_def)

lemma dec_no_us: "underscore \<notin> set (dec n)"
  using dec_digits is_digit_not_us by blast

lemma dec_no_backtick: "backtick \<notin> set (dec n)"
  using dec_digits is_digit_not_backtick by blast

lemma key_block_shape: "key_block i = underscore # underscore # js ''CODE_BLOCK_'' @ dec i @ [underscore, underscore]"
  by (simp add: key_block_def js_def underscore_def)

lemma key_inline_shape: "key_inline i = underscore # underscore # js ''INLINE_CODE_'' @ dec i @ [underscore, underscore]"
  by (simp add: key_inline_def js_def underscore_def)

lemma is_key_head: "is_key k \<Longrightarrow> \<exists>z. k = underscore # underscore # z \<and> z \<noteq> []"
  by (auto simp: is_key_def key_block_shape key_inline_shape js_def)

lemma is_key_nonempty: "is_key k \<Longrightarrow> k \<noteq> []"
  by (auto dest: is_key_head)

lemma is_key_no_backtick: "is_key k \<Longrightarrow> backtick \<notin> set k"
  using dec_no_backtick
  by (auto simp: is_key_def key_block_def key_inline_def js_def backtick_def)

text \<open>No key starts where the two code units are not both underscores.\<close>

lemma repl_skip_char: "is_key k \<Longrightarrow> c \<noteq> underscore \<Longrightarrow> repl k v (c # s) = c # repl k v s"
  by (auto dest!: is_key_head)

lemma repl_skip_pair: "is_key k \<Longrightarrow> d \<noteq> underscore \<Longrightarrow> repl k v (c # d # s) = c # repl k v (d # s)"
  by (auto dest!: is_key_head)

lemma repl_skip_free: "is_key k \<Longrightarrow> underscore \<notin> set a \<Longrightarrow> repl k v (a @ s) = a @ repl k v s"
  by (induction a) (auto simp: repl_skip_char simp del: repl.simps)

lemma repl_hit: "k \<noteq> [] \<Longrightarrow> repl k v (k @ s) = v @ repl k v s"
  by (cases k) auto

lemma prefix_class:
  "\<forall>c \<in> set a. P c \<Longrightarrow> \<forall>c \<in> set b. P c \<Longrightarrow> \<not> P u \<Longrightarrow> prefix (a @ u # y) (b @ u # z) \<Longrightarrow> a = b"
proof (induction a arbitrary: b)
  case Nil
  then show ?case by (cases b) auto
next
  case (Cons c a)
  then show ?case by (cases b) auto
qed

lemma dec_prefix: "prefix (dec i @ underscore # y) (dec j @ underscore # z) \<Longrightarrow> i = j"
proof -
  assume "prefix (dec i @ underscore # y) (dec j @ underscore # z)"
  then have "dec i = dec j"
    by (rule prefix_class[where P="\<lambda>c. c \<noteq> underscore", rotated 3]) (use dec_no_us in auto)
  then show ?thesis by (rule dec_inj)
qed

lemma key_prefix_key: "is_key k \<Longrightarrow> is_key k' \<Longrightarrow> prefix k (k' @ x) \<Longrightarrow> k = k'"
  by (auto simp: is_key_def key_block_shape key_inline_shape js_def dest: dec_prefix)

text \<open>
  The two names of which the keys are made, each followed by a digit. \<open>name_free s\<close>: neither
  occurs in \<open>s\<close>.
\<close>

definition digit_after :: "jsstring \<Rightarrow> jsstring \<Rightarrow> bool" where
  "digit_after nm s \<longleftrightarrow>
     prefix nm s \<and> (case drop (length nm) s of [] \<Rightarrow> False | d # r \<Rightarrow> is_digit d)"

definition name_at :: "jsstring \<Rightarrow> bool" where
  "name_at s \<longleftrightarrow> digit_after (js ''CODE_BLOCK_'') s \<or> digit_after (js ''INLINE_CODE_'') s"

fun name_free :: "jsstring \<Rightarrow> bool" where
  "name_free [] = True"
| "name_free (c # s) = (\<not> name_at (c # s) \<and> name_free s)"

text \<open>A match of either regular expression begins and ends with a backtick.\<close>

definition code_span :: "jsstring \<Rightarrow> bool" where
  "code_span v \<longleftrightarrow> name_free v \<and> (\<exists>w. v = backtick # w @ [backtick])"

text \<open>\<open>adjacent p u\<close>: somewhere in \<open>u\<close> two \<open>p\<close> stand side by side.\<close>

fun adjacent :: "'a \<Rightarrow> 'a list \<Rightarrow> bool" where
  "adjacent p (x # y # s) = ((x = p \<and> y = p) \<or> adjacent p (y # s))"
| "adjacent p [x] = False"
| "adjacent p [] = False"

text \<open>
  \<open>tmpl P x y\<close>: the string \<open>x\<close> is \<open>y\<close> with some code spans \<open>v\<close> replaced by keys \<open>k\<close>,
  \<open>(k, v)\<close> in \<open>P\<close>, where no name with its digit occurs in the text between two keys, nor
  in a span.
\<close>

inductive tmpl :: "(jsstring \<times> jsstring) set \<Rightarrow> jsstring \<Rightarrow> jsstring \<Rightarrow> bool"
  for P :: "(jsstring \<times> jsstring) set" where
  tmpl_End: "name_free a \<Longrightarrow> tmpl P a a"
| tmpl_Key: "name_free a \<Longrightarrow> (k, v) \<in> P \<Longrightarrow> is_key k \<Longrightarrow> code_span v \<Longrightarrow> tmpl P x y \<Longrightarrow>
     tmpl P (a @ k @ x) (a @ v @ y)"

text \<open>A text without names, at its end or followed by the two underscores of a key.\<close>

definition text_then_key :: "jsstring \<Rightarrow> bool" where
  "text_then_key x \<longleftrightarrow> (\<exists>a. name_free a \<and> (x = a \<or> (\<exists>z. x = a @ underscore # underscore # z)))"

lemma digit_after_iff: "digit_after nm s \<longleftrightarrow> (\<exists>d r. is_digit d \<and> s = nm @ d # r)"
  by (auto simp: digit_after_def prefix_def split: list.splits)

lemma name_at_iff:
  "name_at s \<longleftrightarrow>
     (\<exists>nm d r. (nm = js ''CODE_BLOCK_'' \<or> nm = js ''INLINE_CODE_'') \<and> is_digit d \<and> s = nm @ d # r)"
  unfolding name_at_def digit_after_iff by blast

lemma name_at_append: "name_at a \<Longrightarrow> name_at (a @ b)"
  unfolding name_at_iff by fastforce

lemma name_free_append: "name_free (a @ b) \<Longrightarrow> name_free a \<and> name_free b"
proof (induction a)
  case Nil
  then show ?case by simp
next
  case (Cons c a)
  then have "\<not> name_at ((c # a) @ b)" "name_free (a @ b)" by simp_all
  with Cons.IH name_at_append[of "c # a" b] show ?case by auto
qed

lemma name_free_not_at: "name_free s \<Longrightarrow> \<not> name_at s"
  by (cases s) (simp_all add: name_at_def digit_after_def js_def)

lemma name_at_underscore: "\<not> name_at (underscore # s)"
  by (simp add: name_at_def digit_after_def js_def underscore_def)

lemma name_at_backtick: "\<not> name_at (backtick # s)"
  by (simp add: name_at_def digit_after_def js_def backtick_def)

lemma prefix_before:
  "prefix p (a @ q # b) \<Longrightarrow> q \<notin> set p \<Longrightarrow> prefix p a"
proof -
  assume p: "prefix p (a @ q # b)" and q: "q \<notin> set p"
  then consider "prefix p a" | us where "p = a @ us" "prefix us (q # b)"
    by (auto simp: prefix_append)
  then show ?thesis
  proof cases
    case 1
    then show ?thesis .
  next
    case 2
    with q show ?thesis by (cases us) auto
  qed
qed

lemma name_at_before_backtick:
  assumes "name_at (a @ backtick # b)"
  shows "name_at a"
proof -
  from assms obtain nm d r where nm: "nm = js ''CODE_BLOCK_'' \<or> nm = js ''INLINE_CODE_''"
    and d: "is_digit d" and e: "a @ backtick # b = nm @ d # r"
    unfolding name_at_iff by blast
  have "backtick \<notin> set (nm @ [d])"
    using nm is_digit_not_backtick[OF d] by (auto simp: js_def backtick_def)
  moreover have "prefix (nm @ [d]) (a @ backtick # b)" by (simp add: e)
  ultimately have "prefix (nm @ [d]) a" by (rule prefix_before[rotated])
  then obtain r' where "a = nm @ d # r'" by (auto simp: prefix_def)
  with nm d show ?thesis unfolding name_at_iff by blast
qed

lemma name_free_join:
  "name_free (a @ [backtick]) \<Longrightarrow> name_free (backtick # b) \<Longrightarrow> name_free (a @ backtick # b)"
proof (induction a)
  case Nil
  then show ?case by simp
next
  case (Cons c a)
  from Cons.prems(1) have n: "\<not> name_at ((c # a) @ [backtick])" and r: "name_free (a @ [backtick])" by simp_all
  have "\<not> name_at ((c # a) @ backtick # b)"
  proof
    assume "name_at ((c # a) @ backtick # b)"
    then have "name_at (c # a)" by (rule name_at_before_backtick)
    then have "name_at ((c # a) @ [backtick])" by (rule name_at_append)
    with n show False by contradiction
  qed
  with Cons.IH[OF r Cons.prems(2)] show ?case by simp
qed

lemma name_free_snoc_backtick: "name_free a \<Longrightarrow> name_free (a @ [backtick])"
proof (induction a)
  case Nil
  then show ?case by (simp add: name_at_backtick)
next
  case (Cons c a)
  then have n: "\<not> name_at (c # a)" and r: "name_free a" by simp_all
  have "\<not> name_at ((c # a) @ [backtick])" using name_at_before_backtick[of "c # a" "[]"] n by blast
  with Cons.IH[OF r] show ?case by simp
qed

lemma name_free_span:
  assumes a: "name_free a" and v: "code_span v" and b: "name_free b"
  shows "name_free (a @ v @ b)"
proof -
  from v obtain w where w: "v = backtick # w @ [backtick]" and nv: "name_free v"
    by (auto simp: code_span_def)
  have bb: "name_free (backtick # b)" using b by (simp add: name_at_backtick)
  have "name_free ((backtick # w) @ backtick # b)"
    by (rule name_free_join) (use nv w bb in simp_all)
  then have vb: "name_free (backtick # w @ backtick # b)" by simp
  have "name_free (a @ backtick # w @ backtick # b)"
    by (rule name_free_join) (use name_free_snoc_backtick[OF a] vb in simp_all)
  then show ?thesis by (simp add: w)
qed

lemma tmpl_mono: "tmpl P x y \<Longrightarrow> P \<subseteq> P' \<Longrightarrow> tmpl P' x y"
  by (induction rule: tmpl.induct) (auto intro: tmpl.intros)

lemma tmpl_span:
  assumes a: "name_free a" and v: "code_span v" and t: "tmpl P x y"
  shows "tmpl P (a @ v @ x) (a @ v @ y)"
  using t
proof (cases rule: tmpl.cases)
  case tmpl_End
  then show ?thesis using name_free_span[OF a v, of x] by (simp add: tmpl.tmpl_End)
next
  case (tmpl_Key a2 k v' x' y')
  have "tmpl P ((a @ v @ a2) @ k @ x') ((a @ v @ a2) @ v' @ y')"
    by (rule tmpl.tmpl_Key) (use tmpl_Key name_free_span[OF a v, of a2] in simp_all)
  with tmpl_Key show ?thesis by simp
qed

lemma tmpl_Cons:
  assumes t: "tmpl P x y" and n: "name_free (c # y)"
  shows "tmpl P (c # x) (c # y)"
  using t
proof (cases rule: tmpl.cases)
  case tmpl_End
  with n show ?thesis by (simp add: tmpl.tmpl_End)
next
  case (tmpl_Key a k v x' y')
  from n tmpl_Key have "name_free ((c # a) @ v @ y')" by simp
  then have ca: "name_free (c # a)" by (rule name_free_append[THEN conjunct1])
  have "tmpl P ((c # a) @ k @ x') ((c # a) @ v @ y')"
    by (rule tmpl.tmpl_Key) (use tmpl_Key ca in simp_all)
  with tmpl_Key show ?thesis by simp
qed

lemma tmpl_empty: "tmpl {} x y \<Longrightarrow> x = y"
  by (induction rule: tmpl.induct) auto

lemma tmpl_Nil_left: "tmpl P [] y \<Longrightarrow> y = []"
  by (erule tmpl.cases) (auto dest: is_key_nonempty)

lemma tmpl_text_then_key: "tmpl P x y \<Longrightarrow> text_then_key x"
proof (erule tmpl.cases)
  fix a assume "x = a" "name_free a"
  then show ?thesis by (auto simp: text_then_key_def)
next
  fix a k v x' y' assume h: "x = a @ k @ x'" "name_free a" "is_key k"
  from is_key_head[OF h(3)] obtain z where "k = underscore # underscore # z" by blast
  with h show ?thesis by (auto simp: text_then_key_def)
qed

lemma adjacent_Cons: "adjacent p u \<Longrightarrow> adjacent p (x # u)"
  by (cases u) auto

lemma adjacent_prefix:
  "prefix u (a @ p # p # z) \<Longrightarrow> length a + 2 \<le> length u \<Longrightarrow> adjacent p u"
proof (induction a arbitrary: u)
  case Nil
  then obtain x y s where "u = x # y # s" by (cases u; cases "tl u") auto
  with Nil show ?case by auto
next
  case (Cons c a)
  then obtain x u' where u: "u = x # u'" by (cases u) auto
  with Cons.prems have "prefix u' (a @ p # p # z)" "length a + 2 \<le> length u'" by auto
  from Cons.IH[OF this] show ?case unfolding u by (rule adjacent_Cons)
qed

lemma is_key_shape:
  "is_key k \<Longrightarrow> \<exists>nm i. (nm = js ''CODE_BLOCK_'' \<or> nm = js ''INLINE_CODE_'') \<and>
     k = underscore # underscore # nm @ dec i @ [underscore, underscore]"
  by (auto simp: is_key_def key_block_shape key_inline_shape)

text \<open>
  No key starts in a text that holds no name, even when the two underscores at the head of
  a key follow the text.
\<close>

lemma no_key_at:
  assumes k: "is_key K" and nf: "name_free a" and ne: "a \<noteq> []"
    and x: "x = a \<or> (\<exists>z. x = a @ underscore # underscore # z)"
  shows "\<not> prefix K x"
proof
  assume p: "prefix K x"
  from is_key_shape[OF k] obtain nm i where
    nm: "nm = js ''CODE_BLOCK_'' \<or> nm = js ''INLINE_CODE_''" and
    K: "K = underscore # underscore # nm @ dec i @ [underscore, underscore]" by blast
  obtain d ds where d: "dec i = d # ds" using dec_nonempty[of i] by (cases "dec i") auto
  have dd: "is_digit d" using dec_digits[of d i] d by simp
  have dn: "d \<noteq> underscore" using dec_no_us[of i] d by auto
  obtain e es where e: "ds @ [underscore, underscore] = e # es" by (cases ds) auto
  obtain c a' where a: "a = c # a'" using ne by (cases a) auto
  let ?w = "underscore # underscore # nm @ [d]"
  show False
  proof (cases "length a < length ?w")
    case True
    from x show False
    proof
      assume "x = a"
      with p have "length K \<le> length a" by (auto dest: prefix_length_le)
      with True K d show False by simp
    next
      assume "\<exists>z. x = a @ underscore # underscore # z"
      then obtain z where z: "x = a @ underscore # underscore # z" by blast
      let ?u = "underscore # nm @ [d, e]"
      have "underscore # nm @ dec i @ [underscore, underscore] = ?u @ es"
        using e by (simp add: d)
      moreover from p have "prefix (underscore # nm @ dec i @ [underscore, underscore]) (a' @ underscore # underscore # z)"
        by (simp add: K z a)
      ultimately have "prefix (?u @ es) (a' @ underscore # underscore # z)" by simp
      then have "prefix ?u (a' @ underscore # underscore # z)" by (rule append_prefixD)
      moreover have "length a' + 2 \<le> length ?u" using True a by simp
      ultimately have "adjacent underscore ?u" by (rule adjacent_prefix)
      with nm dn show False by (auto simp: js_def underscore_def)
    qed
  next
    case False
    have "prefix ?w K" by (simp add: K d)
    from this p have "prefix ?w x" by (rule prefix_order.trans)
    moreover have "prefix a x" using x by auto
    ultimately have "prefix ?w a" using False by (intro prefix_length_prefix[of ?w x a]) simp_all
    then obtain a2 where "a = ?w @ a2" by (auto simp: prefix_def)
    with nf have "name_free (nm @ d # a2)" by simp
    then have "\<not> name_at (nm @ d # a2)" by (rule name_free_not_at)
    with nm dd show False unfolding name_at_iff by blast
  qed
qed

lemma repl_text:
  "is_key K \<Longrightarrow> name_free a \<Longrightarrow> x = [] \<or> (\<exists>z. x = underscore # underscore # z) \<Longrightarrow>
   repl K V (a @ x) = a @ repl K V x"
proof (induction a)
  case Nil
  then show ?case by simp
next
  case (Cons c a)
  from Cons.prems(3) have "(c # a) @ x = c # a \<or> (\<exists>z. (c # a) @ x = (c # a) @ underscore # underscore # z)"
    by auto
  from no_key_at[OF Cons.prems(1,2) _ this] have "\<not> prefix K (c # a @ x)" by simp
  moreover from Cons.prems(2) have "name_free a" by simp
  ultimately show ?case using Cons.IH Cons.prems(1,3) by simp
qed

lemma repl_key_tail:
  assumes k: "is_key K" and x: "text_then_key x"
  shows "repl K V (underscore # underscore # x) = underscore # underscore # repl K V x"
proof -
  from x obtain a where a: "name_free a" and xa: "x = a \<or> (\<exists>z. x = a @ underscore # underscore # z)"
    by (auto simp: text_then_key_def)
  have n2: "name_free (underscore # underscore # a)" and n1: "name_free (underscore # a)"
    using a by (simp_all add: name_at_underscore)
  have "underscore # underscore # x = underscore # underscore # a \<or>
        (\<exists>z. underscore # underscore # x = (underscore # underscore # a) @ underscore # underscore # z)"
    using xa by auto
  from no_key_at[OF k n2 _ this] have p2: "\<not> prefix K (underscore # underscore # x)" by simp
  have "underscore # x = underscore # a \<or>
        (\<exists>z. underscore # x = (underscore # a) @ underscore # underscore # z)"
    using xa by auto
  from no_key_at[OF k n1 _ this] have p1: "\<not> prefix K (underscore # x)" by simp
  show ?thesis using p1 p2 by simp
qed

lemma repl_key_body:
  assumes k: "is_key k" and x: "text_then_key x"
    and that: "nm = js ''CODE_BLOCK_'' \<or> nm = js ''INLINE_CODE_''"
  shows "repl k v (nm @ dec j @ underscore # underscore # x) = nm @ dec j @ underscore # underscore # repl k v x"
proof -
  obtain d ds where d: "dec j = d # ds" using dec_nonempty[of j] by (cases "dec j") auto
  have dn: "d \<noteq> underscore" and dsn: "underscore \<notin> set ds" using dec_no_us[of j] d by auto
  have "repl k v (ds @ underscore # underscore # x) = ds @ underscore # underscore # repl k v x"
    using repl_skip_free[OF k dsn] repl_key_tail[OF k x] by simp
  then have tail: "repl k v (d # ds @ underscore # underscore # x) = d # ds @ underscore # underscore # repl k v x"
    using repl_skip_char[OF k dn] by simp
  from that show ?thesis
  proof
    assume "nm = js ''CODE_BLOCK_''"
    then show ?thesis using tail dn
      by (simp add: js_def d repl_skip_pair[OF k] repl_skip_char[OF k] underscore_def del: repl.simps)
  next
    assume "nm = js ''INLINE_CODE_''"
    then show ?thesis using tail dn
      by (simp add: js_def d repl_skip_pair[OF k] repl_skip_char[OF k] underscore_def del: repl.simps)
  qed
qed

lemma repl_key_other:
  assumes k: "is_key k" and k': "is_key k'" and ne: "k \<noteq> k'" and x: "text_then_key x"
  shows "repl k v (k' @ x) = k' @ repl k v x"
proof -
  from is_key_shape[OF k'] obtain nm j where nm: "nm = js ''CODE_BLOCK_'' \<or> nm = js ''INLINE_CODE_''"
    and k'eq: "k' = underscore # underscore # nm @ dec j @ [underscore, underscore]"
    by blast
  obtain h hs where h: "nm = h # hs" "h \<noteq> underscore" using nm by (auto simp: js_def underscore_def)
  have "\<not> prefix k (k' @ x)" using key_prefix_key[OF k k'] ne by blast
  then have "repl k v (k' @ x) = underscore # repl k v (underscore # nm @ dec j @ underscore # underscore # x)"
    by (simp add: k'eq)
  also have "\<dots> = underscore # underscore # repl k v (nm @ dec j @ underscore # underscore # x)"
    using repl_skip_pair[OF k h(2), of v underscore] by (simp add: h del: repl.simps)
  also have "\<dots> = underscore # underscore # nm @ dec j @ underscore # underscore # repl k v x"
    using repl_key_body[OF k x nm] by simp
  finally show ?thesis by (simp add: k'eq)
qed

lemma tmpl_repl:
  assumes "tmpl P x y" and k: "is_key k" and v: "code_span v"
    and fn: "\<And>v'. (k, v') \<in> P \<Longrightarrow> v' = v"
  shows "tmpl (P - {(k, v)}) (repl k v x) y"
  using assms(1)
proof (induction rule: tmpl.induct)
  case (tmpl_End a)
  have "repl k v (a @ []) = a @ repl k v []" by (rule repl_text[OF k tmpl_End]) simp
  then show ?case using tmpl_End by (simp add: tmpl.tmpl_End)
next
  case (tmpl_Key a k' v' x y)
  from is_key_head[OF tmpl_Key.hyps(3)] obtain z where "k' @ x = underscore # underscore # (z @ x)" by auto
  then have "repl k v (a @ k' @ x) = a @ repl k v (k' @ x)"
    using repl_text[OF k tmpl_Key.hyps(1), of "k' @ x" v] by simp
  moreover have "tmpl (P - {(k, v)}) (a @ repl k v (k' @ x)) (a @ v' @ y)"
  proof (cases "k' = k")
    case True
    with tmpl_Key fn have "v' = v" by blast
    moreover have "repl k v (k @ x) = v @ repl k v x" using repl_hit is_key_nonempty[OF k] by blast
    ultimately show ?thesis using True tmpl_span[OF tmpl_Key.hyps(1) v tmpl_Key.IH] by simp
  next
    case False
    have "repl k v (k' @ x) = k' @ repl k v x"
      using repl_key_other[OF k tmpl_Key.hyps(3) _ tmpl_text_then_key[OF tmpl_Key.hyps(5)]] False by blast
    moreover have "(k', v') \<in> P - {(k, v)}" using False tmpl_Key.hyps(2) by simp
    ultimately show ?thesis using tmpl_Key by (simp add: tmpl.tmpl_Key)
  qed
  ultimately show ?case by simp
qed

lemma restore_tmpl:
  "distinct (map fst phs) \<Longrightarrow> \<forall>(k, v) \<in> set phs. is_key k \<and> code_span v \<Longrightarrow>
   tmpl (set phs) x y \<Longrightarrow> foldl restore_step x phs = y"
proof (induction phs arbitrary: x)
  case Nil
  then show ?case by (simp add: tmpl_empty)
next
  case (Cons p phs)
  obtain k v where p: "p = (k, v)" by (cases p)
  from Cons.prems p have k: "is_key k" and v: "code_span v" by auto
  have fn: "\<And>v'. (k, v') \<in> set (p # phs) \<Longrightarrow> v' = v"
    using Cons.prems(1) p by (auto simp: image_iff)
  have "(k, v) \<notin> set phs" using Cons.prems(1) p by (auto simp: image_iff)
  then have "set (p # phs) - {(k, v)} = set phs" using p by auto
  with tmpl_repl[OF Cons.prems(3) k v fn] have "tmpl (set phs) (repl k v x) y" by simp
  moreover have "restore_step x p = repl k v x"
    using restore_step_repl[OF is_key_nonempty[OF k]] p by simp
  ultimately show ?case using Cons.IH[of "repl k v x"] Cons.prems by simp
qed

definition keys_below :: "nat \<Rightarrow> placeholder_map \<Rightarrow> bool" where
  "keys_below idx ph \<longleftrightarrow> (\<forall>(k, v) \<in> set ph. \<exists>j<idx. k = key_block j \<or> k = key_inline j)"

definition ph_inv :: "nat \<Rightarrow> placeholder_map \<Rightarrow> bool" where
  "ph_inv idx ph \<longleftrightarrow> distinct (map fst ph) \<and> keys_below idx ph"

lemma key_block_inj: "key_block i = key_block j \<Longrightarrow> i = j"
  by (auto simp: key_block_shape dest: dec_inj)

lemma key_inline_inj: "key_inline i = key_inline j \<Longrightarrow> i = j"
  by (auto simp: key_inline_shape dest: dec_inj)

lemma key_block_inline: "key_block i \<noteq> key_inline j"
  by (simp add: key_block_shape key_inline_shape js_def)

lemma obj_set_new: "k \<notin> fst ` set ph \<Longrightarrow> obj_set k v ph = ph @ [(k, v)]"
  by (induction ph) auto

lemma keys_below_fresh:
  "keys_below idx ph \<Longrightarrow> key_block idx \<notin> fst ` set ph \<and> key_inline idx \<notin> fst ` set ph"
  by (fastforce simp: keys_below_def dest: key_block_inj key_inline_inj
        simp: key_block_inline key_block_inline[symmetric])

lemma ph_inv_step:
  "ph_inv idx ph \<Longrightarrow> k = key_block idx \<or> k = key_inline idx \<Longrightarrow>
   obj_set k m ph = ph @ [(k, m)] \<and> ph_inv (Suc idx) (ph @ [(k, m)])"
proof -
  assume i: "ph_inv idx ph" and k: "k = key_block idx \<or> k = key_inline idx"
  from i have kb: "keys_below idx ph" and d: "distinct (map fst ph)" by (auto simp: ph_inv_def)
  have fr: "k \<notin> fst ` set ph"
    using keys_below_fresh[OF kb] k by (elim disjE conjE) simp_all
  have "\<exists>j<Suc idx. k = key_block j \<or> k = key_inline j" using k by blast
  moreover have "\<exists>j<Suc idx. k' = key_block j \<or> k' = key_inline j" if "(k', v') \<in> set ph" for k' v'
  proof -
    from kb that obtain j where "j < idx" "k' = key_block j \<or> k' = key_inline j"
      unfolding keys_below_def by blast
    then show ?thesis using less_SucI by blast
  qed
  ultimately have "keys_below (Suc idx) (ph @ [(k, m)])"
    unfolding keys_below_def by auto
  with fr d show ?thesis by (auto simp: ph_inv_def obj_set_new)
qed

lemma ph_inv_keys: "ph_inv idx ph \<Longrightarrow> (k, v) \<in> set ph \<Longrightarrow> is_key k"
  by (fastforce simp: ph_inv_def keys_below_def is_key_def)

lemma match_fence_split: "match_fence s = Some (m, r) \<Longrightarrow> s = m @ r"
  by (auto simp: match_fence_def split: if_splits option.splits)

lemma match_inline_split:
  "match_inline s = Some (m, r) \<Longrightarrow> \<exists>run. m = backtick # run @ [backtick] \<and> s = m @ r"
proof -
  assume a: "match_inline s = Some (m, r)"
  then obtain c t where s: "s = c # t" by (cases s) (auto simp: match_inline_def)
  let ?run = "takeWhile (\<lambda>x. x \<noteq> backtick) t"
  let ?rest = "dropWhile (\<lambda>x. x \<noteq> backtick) t"
  from a s have c: "c = backtick" and ne: "?rest \<noteq> []" and m: "m = c # ?run @ [backtick]"
    and r: "r = tl ?rest"
    by (auto simp: match_inline_def Let_def split: if_splits)
  from ne have "hd ?rest = backtick" using hd_dropWhile[of "\<lambda>x. x \<noteq> backtick" t] by simp
  with ne r have "?rest = backtick # r" by (cases ?rest) auto
  then have "t = ?run @ backtick # r" using takeWhile_dropWhile_id[of "\<lambda>x. x \<noteq> backtick" t] by simp
  with s c m show ?thesis by auto
qed

lemma match_inline_not_backtick: "c \<noteq> backtick \<Longrightarrow> match_inline (c # s) = None"
  by (simp add: match_inline_def Let_def)

lemma extract_inline_skip:
  "backtick \<notin> set a \<Longrightarrow>
   extract_inline st (a @ x) = (case extract_inline st x of (clean, st') \<Rightarrow> (a @ clean, st'))"
proof (induction a)
  case Nil
  then show ?case by (simp split: prod.splits)
next
  case (Cons c a)
  obtain ph idx where st: "st = (ph, idx)" by (cases st)
  from Cons have "c \<noteq> backtick" by auto
  then have m: "match_inline (c # a @ x) = None" by (rule match_inline_not_backtick)
  from Cons have ih: "extract_inline (ph, idx) (a @ x) = (case extract_inline (ph, idx) x of (clean, st') \<Rightarrow> (a @ clean, st'))"
    by (simp add: st)
  show ?case unfolding st by (simp add: m ih split: prod.splits)
qed

lemma extract_inline_extends:
  "extract_inline st s = (clean, ph', idx') \<Longrightarrow> ph_inv (snd st) (fst st) \<Longrightarrow> \<exists>new. ph' = fst st @ new"
proof (induction st s arbitrary: clean ph' idx' rule: extract_inline.induct)
  case (1 ph idx)
  then show ?case by simp
next
  case (2 ph idx c s)
  show ?case
  proof (cases "match_inline (c # s)")
    case None
    obtain cl st' where r: "extract_inline (ph, idx) s = (cl, st')" by (cases "extract_inline (ph, idx) s")
    with None 2(3) have "st' = (ph', idx')" by auto
    with 2(1)[OF None] r 2(4) show ?thesis by auto
  next
    case (Some mr)
    obtain m r where mr: "mr = (m, r)" by (cases mr)
    let ?k = "key_inline idx"
    obtain cl st' where rr: "extract_inline (obj_set ?k m ph, Suc idx) r = (cl, st')"
      by (cases "extract_inline (obj_set ?k m ph, Suc idx) r")
    with Some mr 2(3) have e: "st' = (ph', idx')" by auto
    from ph_inv_step[of idx ph ?k m] 2(4)
    have os: "obj_set ?k m ph = ph @ [(?k, m)]" and i2: "ph_inv (Suc idx) (ph @ [(?k, m)])" by auto
    from 2(2)[OF Some mr[symmetric] refl, of cl ph' idx'] rr e os i2
    obtain new where "ph' = (ph @ [(?k, m)]) @ new" by auto
    then show ?thesis by simp
  qed
qed

lemma find_sub_at: "find_sub p s = Some k \<Longrightarrow> prefix p (drop k s)"
proof (induction s arbitrary: k)
  case Nil
  then show ?case by (simp split: if_splits)
next
  case (Cons c s)
  show ?case
  proof (cases "prefix p (c # s)")
    case True
    with Cons.prems show ?thesis by simp
  next
    case False
    with Cons.prems obtain k' where "find_sub p s = Some k'" "k = Suc k'" by auto
    with Cons.IH show ?thesis by simp
  qed
qed

lemma match_fence_span:
  assumes "match_fence s = Some (m, r)"
  shows "\<exists>w. m = backtick # w @ [backtick]"
proof -
  from assms obtain k where p: "prefix fence s" and f: "find_sub fence (drop 3 s) = Some k"
    and m: "m = take (k + 6) s"
    by (auto simp: match_fence_def split: if_splits option.splits)
  from p obtain s3 where s: "s = fence @ s3" by (auto simp: prefix_def)
  then have d3: "drop 3 s = s3" by (simp add: fence_def)
  from find_sub_at[OF f] d3 obtain rest where r: "drop k s3 = fence @ rest" by (auto simp: prefix_def)
  from find_sub_bound[OF f] d3 have kl: "k + 3 \<le> length s3" by (simp add: fence_def)
  have "s3 = take k s3 @ fence @ rest" using r append_take_drop_id[of k s3] by simp
  then have "s = fence @ take k s3 @ fence @ rest" using s by simp
  then have sm: "s = (fence @ take k s3 @ fence) @ rest" by simp
  have "length (fence @ take k s3 @ fence) = k + 6" using kl by (simp add: fence_def)
  then have "take (k + 6) ((fence @ take k s3 @ fence) @ rest) = fence @ take k s3 @ fence"
    by (metis append_eq_conv_conj)
  with sm m have "m = fence @ take k s3 @ fence" by simp
  then have "m = backtick # ([backtick, backtick] @ take k s3 @ [backtick, backtick]) @ [backtick]"
    by (simp add: fence_def)
  then show ?thesis by blast
qed

lemma key_not_name_free: "is_key k \<Longrightarrow> \<not> name_free (a @ k @ u)"
proof
  assume k: "is_key k" and n: "name_free (a @ k @ u)"
  from is_key_shape[OF k] obtain nm i where
    nm: "nm = js ''CODE_BLOCK_'' \<or> nm = js ''INLINE_CODE_''" and
    K: "k = underscore # underscore # nm @ dec i @ [underscore, underscore]" by blast
  obtain d ds where d: "dec i = d # ds" using dec_nonempty[of i] by (cases "dec i") auto
  have dd: "is_digit d" using dec_digits[of d i] d by simp
  from n have "name_free (k @ u)" by (rule name_free_append[THEN conjunct2])
  then have "name_free (nm @ d # (ds @ [underscore, underscore]) @ u)" by (simp add: K d)
  then have "\<not> name_at (nm @ d # (ds @ [underscore, underscore]) @ u)" by (rule name_free_not_at)
  with nm dd show False unfolding name_at_iff by blast
qed

lemma extract_blocks_tmpl:
  "extract_blocks st s = (clean, ph', idx') \<Longrightarrow> ph_inv (snd st) (fst st) \<Longrightarrow> name_free s \<Longrightarrow>
   \<exists>new. ph' = fst st @ new \<and> ph_inv idx' ph' \<and> tmpl (set new) clean s \<and>
     (\<forall>(k, v) \<in> set new. code_span v)"
proof (induction st s arbitrary: clean ph' idx' rule: extract_blocks.induct)
  case (1 ph idx)
  then show ?case by (auto intro: tmpl.intros)
next
  case (2 ph idx c s)
  show ?case
  proof (cases "match_fence (c # s)")
    case None
    obtain cl st' where r: "extract_blocks (ph, idx) s = (cl, st')" by (cases "extract_blocks (ph, idx) s")
    with None 2(3) have e: "clean = c # cl" "st' = (ph', idx')" by auto
    from 2(5) have ns: "name_free s" by simp
    from 2(1)[OF None] r e 2(4) ns obtain new where
      n: "ph' = ph @ new" "ph_inv idx' ph'" "tmpl (set new) cl s" "\<forall>(k, v) \<in> set new. code_span v" by auto
    from tmpl_Cons[OF n(3) 2(5)] have "tmpl (set new) (c # cl) (c # s)" .
    with n e show ?thesis by auto
  next
    case (Some mr)
    obtain m r where mr: "mr = (m, r)" by (cases mr)
    obtain cl st' where rr: "extract_blocks (obj_set (key_block idx) m ph, Suc idx) r = (cl, st')"
      by (cases "extract_blocks (obj_set (key_block idx) m ph, Suc idx) r")
    with Some mr 2(3) have e: "clean = key_block idx @ cl" "st' = (ph', idx')" by auto
    from match_fence_split Some mr have sp: "c # s = m @ r" by blast
    with 2(5) have "name_free (m @ r)" by simp
    then have um: "name_free m" and ur: "name_free r" by (auto dest: name_free_append)
    from match_fence_span Some mr obtain w where "m = backtick # w @ [backtick]" by blast
    with um have cm: "code_span m" by (auto simp: code_span_def)
    from ph_inv_step[of idx ph "key_block idx" m] 2(4)
    have os: "obj_set (key_block idx) m ph = ph @ [(key_block idx, m)]"
      and i2: "ph_inv (Suc idx) (ph @ [(key_block idx, m)])" by auto
    from 2(2)[OF Some mr[symmetric] refl, of cl ph' idx'] rr e os i2 ur
    obtain new where n: "ph' = (ph @ [(key_block idx, m)]) @ new" "ph_inv idx' ph'" "tmpl (set new) cl r"
      "\<forall>(k, v) \<in> set new. code_span v"
      by auto
    have "tmpl (set ((key_block idx, m) # new)) ([] @ key_block idx @ cl) ([] @ m @ r)"
      by (rule tmpl_Key) (use cm n(3) in \<open>auto simp: is_key_def intro: tmpl_mono\<close>)
    with n e sp cm show ?thesis by (intro exI[of _ "(key_block idx, m) # new"]) simp
  qed
qed

lemma span_within:
  assumes e: "a @ k @ x = m @ r" and l: "m \<noteq> []" "last m = backtick"
    and k: "is_key k" and n: "name_free m"
  shows "\<exists>a2. a = m @ a2"
proof (cases "length m \<le> length a")
  case True
  with e show ?thesis by (metis append_eq_append_conv_if append_take_drop_id)
next
  case False
  from e have "\<exists>us. (a = m @ us \<and> us @ k @ x = r) \<or> (a @ us = m \<and> k @ x = us @ r)"
    by (simp add: append_eq_append_conv2)
  then obtain p where "(a = m @ p \<and> p @ k @ x = r) \<or> (a @ p = m \<and> k @ x = p @ r)" by blast
  with False have p: "m = a @ p" "k @ x = p @ r" by auto
  with False have pn: "p \<noteq> []" by auto
  from p(2) have "\<exists>us. (k = p @ us \<and> us @ x = r) \<or> (k @ us = p \<and> x = us @ r)"
    by (simp add: append_eq_append_conv2)
  then obtain u where "(k = p @ u \<and> u @ x = r) \<or> (k @ u = p \<and> x = u @ r)" by blast
  then show ?thesis
  proof
    assume "k = p @ u \<and> u @ x = r"
    then have ku: "k = p @ u" by simp
    from p(1) pn l have "last p = backtick" by simp
    with pn have "backtick \<in> set p" using last_in_set by metis
    with ku have "backtick \<in> set k" by auto
    with is_key_no_backtick[OF k] show ?thesis by contradiction
  next
    assume "k @ u = p \<and> x = u @ r"
    with p(1) n have "name_free (a @ k @ u)" by auto
    with key_not_name_free[OF k] show ?thesis by blast
  qed
qed

lemma extract_inline_tmpl:
  "extract_inline (ph, idx) s = (clean, ph', idx') \<Longrightarrow> ph_inv idx ph \<Longrightarrow> tmpl P s y \<Longrightarrow> name_free y \<Longrightarrow>
   \<forall>(k, v) \<in> set ph'. name_free v \<Longrightarrow>
   \<exists>new. ph' = ph @ new \<and> ph_inv idx' ph' \<and> tmpl (P \<union> set new) clean y \<and>
     (\<forall>(k, v) \<in> set new. code_span v)"
proof (induction "length s" arbitrary: s y ph idx clean rule: less_induct)
  case less
  note nv = less.prems(5)
  have step:
    "\<exists>new. ph' = ph @ new \<and> ph_inv idx' ph' \<and> tmpl (P \<union> set new) clean y \<and>
       (\<forall>(k, v) \<in> set new. code_span v)"
    if s: "s = c # s'" and none: "match_inline (c # s') = None" and y: "y = c # y'" and t: "tmpl P s' y'"
    for c s' y'
  proof -
    obtain cl st' where r: "extract_inline (ph, idx) s' = (cl, st')"
      by (cases "extract_inline (ph, idx) s'")
    with none less.prems(1) s have e: "clean = c # cl" "st' = (ph', idx')" by auto
    have "length s' < length s" using s by simp
    moreover have "name_free y'" using less.prems(4) y by simp
    ultimately obtain new where n: "ph' = ph @ new" "ph_inv idx' ph'" "tmpl (P \<union> set new) cl y'"
      "\<forall>(k, v) \<in> set new. code_span v"
      using less.hyps[of s' ph idx cl y'] r e less.prems(2) t nv by auto
    from tmpl_Cons[OF n(3)] less.prems(4) y have "tmpl (P \<union> set new) (c # cl) (c # y')" by simp
    with n e y show ?thesis by auto
  qed
  have hit:
    "\<exists>new. ph' = ph @ new \<and> ph_inv idx' ph' \<and> tmpl (P \<union> set new) clean y \<and>
       (\<forall>(k, v) \<in> set new. code_span v)"
    if s: "s = m @ r" and some: "match_inline s = Some (m, r)" and y: "y = m @ yr" and t: "tmpl P r yr"
    for m r yr
  proof -
    let ?k = "key_inline idx"
    from some obtain c s' where cs: "s = c # s'" by (cases s) (auto simp: match_inline_def)
    obtain cl st' where rr: "extract_inline (obj_set ?k m ph, Suc idx) r = (cl, st')"
      by (cases "extract_inline (obj_set ?k m ph, Suc idx) r")
    with some less.prems(1) cs have e: "clean = ?k @ cl" "st' = (ph', idx')" by auto
    from match_inline_split some obtain run where m: "m = backtick # run @ [backtick]" by blast
    from ph_inv_step[of idx ph ?k m] less.prems(2)
    have os: "obj_set ?k m ph = ph @ [(?k, m)]" and i2: "ph_inv (Suc idx) (ph @ [(?k, m)])" by auto
    have lr: "length r < length s" using s m by simp
    have rr': "extract_inline (ph @ [(?k, m)], Suc idx) r = (cl, ph', idx')" using rr e os by simp
    have "name_free yr" using less.prems(4) y by (auto dest: name_free_append)
    from less.hyps[OF lr rr' i2 t this nv]
    obtain new where n: "ph' = (ph @ [(?k, m)]) @ new" "ph_inv idx' ph'" "tmpl (P \<union> set new) cl yr"
      "\<forall>(k, v) \<in> set new. code_span v"
      by auto
    have "name_free m" using less.prems(4) y by (auto dest: name_free_append)
    with m have cm: "code_span m" by (auto simp: code_span_def)
    have "tmpl (P \<union> set ((?k, m) # new)) ([] @ ?k @ cl) ([] @ m @ yr)"
      by (rule tmpl_Key) (use cm n(3) in \<open>auto simp: is_key_def intro: tmpl_mono\<close>)
    with n e y cm show ?thesis by (intro exI[of _ "(?k, m) # new"]) simp
  qed
  from less.prems(3) show ?case
  proof (cases rule: tmpl.cases)
    case tmpl_End
    show ?thesis
    proof (cases s)
      case Nil
      with less.prems tmpl_End show ?thesis by (auto intro: tmpl.intros)
    next
      case (Cons c s')
      have ns': "name_free s'" using tmpl_End(2) Cons by simp
      show ?thesis
      proof (cases "match_inline (c # s')")
        case None
        show ?thesis
          by (rule step[OF Cons None]) (use tmpl_End Cons ns' in \<open>auto intro: tmpl.tmpl_End\<close>)
      next
        case (Some mr)
        obtain m r where mr: "mr = (m, r)" by (cases mr)
        from match_inline_split Some mr Cons have sp: "s = m @ r" by blast
        with tmpl_End(2) have "name_free r" by (auto dest: name_free_append)
        then have "tmpl P r r" by (rule tmpl.tmpl_End)
        show ?thesis
          by (rule hit[OF sp _ _ \<open>tmpl P r r\<close>]) (use Some mr Cons sp tmpl_End in auto)
      qed
    qed
  next
    case (tmpl_Key a k v x y0)
    show ?thesis
    proof (cases a)
      case Nil
      obtain cl st' where r: "extract_inline (ph, idx) x = (cl, st')"
        by (cases "extract_inline (ph, idx) x")
      have "extract_inline (ph, idx) (k @ x) = (k @ cl, st')"
        using extract_inline_skip[OF is_key_no_backtick[OF tmpl_Key(5)], of "(ph, idx)" x] r by simp
      with less.prems(1) tmpl_Key(1) Nil have e: "clean = k @ cl" "st' = (ph', idx')" by auto
      have "length x < length s" using tmpl_Key(1) is_key_nonempty[OF tmpl_Key(5)] by simp
      moreover have "name_free y0" using less.prems(4) tmpl_Key(2) by (auto dest: name_free_append)
      ultimately obtain new where n: "ph' = ph @ new" "ph_inv idx' ph'" "tmpl (P \<union> set new) cl y0"
        "\<forall>(k, v) \<in> set new. code_span v"
        using less.hyps[of x ph idx cl y0] r e less.prems(2) tmpl_Key(7) nv by auto
      have "tmpl (P \<union> set new) ([] @ k @ cl) ([] @ v @ y0)"
        by (rule tmpl.tmpl_Key) (use tmpl_Key n(3) in auto)
      with n e tmpl_Key(2) Nil show ?thesis by auto
    next
      case (Cons c a')
      have na': "name_free a'" using tmpl_Key(3) Cons by simp
      have s: "s = c # a' @ k @ x" using tmpl_Key(1) Cons by simp
      show ?thesis
      proof (cases "match_inline (c # a' @ k @ x)")
        case None
        have "tmpl P (a' @ k @ x) (a' @ v @ y0)"
          by (rule tmpl.tmpl_Key) (use tmpl_Key na' in auto)
        then show ?thesis
          by (rule step[OF s None, rotated]) (use tmpl_Key(2) Cons in simp)
      next
        case (Some mr)
        obtain m r where mr: "mr = (m, r)" by (cases mr)
        from match_inline_split Some mr obtain run where
          m: "m = backtick # run @ [backtick]" and sp: "c # a' @ k @ x = m @ r" by blast
        let ?k = "key_inline idx"
        obtain cl st' where rr: "extract_inline (obj_set ?k m ph, Suc idx) r = (cl, st')"
          by (cases "extract_inline (obj_set ?k m ph, Suc idx) r")
        with Some mr less.prems(1) s have e: "st' = (ph', idx')" by auto
        from ph_inv_step[of idx ph ?k m] less.prems(2)
        have os: "obj_set ?k m ph = ph @ [(?k, m)]" and i2: "ph_inv (Suc idx) (ph @ [(?k, m)])" by auto
        have rr': "extract_inline (ph @ [(?k, m)], Suc idx) r = (cl, ph', idx')" using rr e os by simp
        from extract_inline_extends[OF rr'] i2 have "(?k, m) \<in> set ph'" by auto
        with nv have nm: "name_free m" by blast
        have "a @ k @ x = m @ r" using sp Cons by simp
        from span_within[OF this _ _ tmpl_Key(5) nm] m obtain a2 where a2: "a = m @ a2" by auto
        with tmpl_Key(3) have "name_free a2" by (auto dest: name_free_append)
        then have t2: "tmpl P (a2 @ k @ x) (a2 @ v @ y0)"
          by (rule tmpl.tmpl_Key) (use tmpl_Key in auto)
        have "m @ r = a @ k @ x" using sp Cons by simp
        also have "\<dots> = m @ a2 @ k @ x" using a2 by simp
        finally have r: "r = a2 @ k @ x" by simp
        show ?thesis
          by (rule hit[OF _ _ _ t2[folded r]]) (use Some mr s sp r a2 tmpl_Key(2) in auto)
      qed
    qed
  qed
qed

lemma extract_code_tmpl:
  assumes t: "t \<noteq> []" and u: "name_free t"
    and nw: "\<forall>kv \<in> set (placeholders (extract_code t)). name_free (snd kv)"
  shows "\<exists>idx. ph_inv idx (placeholders (extract_code t)) \<and>
    (\<forall>(k, v) \<in> set (placeholders (extract_code t)). code_span v) \<and>
    tmpl (set (placeholders (extract_code t))) (cleanText (extract_code t)) t"
proof -
  obtain clean1 ph1 idx1 where b: "extract_blocks ([], 0) t = (clean1, ph1, idx1)"
    by (cases "extract_blocks ([], 0) t")
  obtain clean2 ph2 idx2 where i: "extract_inline (ph1, idx1) clean1 = (clean2, ph2, idx2)"
    by (cases "extract_inline (ph1, idx1) clean1")
  from t b i have e: "cleanText (extract_code t) = clean2" "placeholders (extract_code t) = ph2"
    by (simp_all add: extract_code_def)
  have "ph_inv 0 []" by (simp add: ph_inv_def keys_below_def)
  with extract_blocks_tmpl[OF b] u have 1: "ph_inv idx1 ph1" "tmpl (set ph1) clean1 t"
    "\<forall>(k, v) \<in> set ph1. code_span v" by auto
  from nw e have "\<forall>(k, v) \<in> set ph2. name_free v" by auto
  from extract_inline_tmpl[OF i 1(1) 1(2) u this]
  obtain new where n: "ph2 = ph1 @ new" "ph_inv idx2 ph2" "tmpl (set ph1 \<union> set new) clean2 t"
    "\<forall>(k, v) \<in> set new. code_span v" by auto
  from n(1,4) 1(3) have "\<forall>(k, v) \<in> set ph2. code_span v" by auto
  with n e show ?thesis by auto
qed

lemma extract_blocks_count:
  "extract_blocks st s = (clean, ph', idx') \<Longrightarrow> ph_inv (snd st) (fst st) \<Longrightarrow>
   ph_inv idx' ph' \<and> length (fst st) \<le> length ph' \<and> (length ph' = length (fst st) \<longrightarrow> clean = s)"
proof (induction st s arbitrary: clean ph' idx' rule: extract_blocks.induct)
  case (1 ph idx)
  then show ?case by auto
next
  case (2 ph idx c s)
  show ?case
  proof (cases "match_fence (c # s)")
    case None
    obtain cl st' where r: "extract_blocks (ph, idx) s = (cl, st')" by (cases "extract_blocks (ph, idx) s")
    with None 2(3) have e: "clean = c # cl" "st' = (ph', idx')" by auto
    from 2(1)[OF None] r e 2(4) show ?thesis by auto
  next
    case (Some mr)
    obtain m r where mr: "mr = (m, r)" by (cases mr)
    obtain cl st' where rr: "extract_blocks (obj_set (key_block idx) m ph, Suc idx) r = (cl, st')"
      by (cases "extract_blocks (obj_set (key_block idx) m ph, Suc idx) r")
    with Some mr 2(3) have e: "st' = (ph', idx')" by auto
    from ph_inv_step[of idx ph "key_block idx" m] 2(4)
    have os: "obj_set (key_block idx) m ph = ph @ [(key_block idx, m)]"
      and i2: "ph_inv (Suc idx) (ph @ [(key_block idx, m)])" by auto
    from 2(2)[OF Some mr[symmetric] refl, of cl ph' idx'] rr e os i2
    have "ph_inv idx' ph'" "length (ph @ [(key_block idx, m)]) \<le> length ph'" by auto
    then show ?thesis by auto
  qed
qed

lemma extract_inline_count:
  "extract_inline st s = (clean, ph', idx') \<Longrightarrow> ph_inv (snd st) (fst st) \<Longrightarrow>
   length (fst st) \<le> length ph' \<and> (length ph' = length (fst st) \<longrightarrow> clean = s)"
proof (induction st s arbitrary: clean ph' idx' rule: extract_inline.induct)
  case (1 ph idx)
  then show ?case by auto
next
  case (2 ph idx c s)
  show ?case
  proof (cases "match_inline (c # s)")
    case None
    obtain cl st' where r: "extract_inline (ph, idx) s = (cl, st')" by (cases "extract_inline (ph, idx) s")
    with None 2(3) have e: "clean = c # cl" "st' = (ph', idx')" by auto
    from 2(1)[OF None] r e 2(4) show ?thesis by auto
  next
    case (Some mr)
    obtain m r where mr: "mr = (m, r)" by (cases mr)
    let ?k = "key_inline idx"
    obtain cl st' where rr: "extract_inline (obj_set ?k m ph, Suc idx) r = (cl, st')"
      by (cases "extract_inline (obj_set ?k m ph, Suc idx) r")
    with Some mr 2(3) have e: "st' = (ph', idx')" by auto
    from ph_inv_step[of idx ph ?k m] 2(4)
    have os: "obj_set ?k m ph = ph @ [(?k, m)]" and i2: "ph_inv (Suc idx) (ph @ [(?k, m)])" by auto
    from 2(2)[OF Some mr[symmetric] refl, of cl ph' idx'] rr e os i2
    have "length (ph @ [(?k, m)]) \<le> length ph'" by auto
    then show ?thesis by auto
  qed
qed

lemma extract_code_no_span:
  assumes "placeholders (extract_code t) = []"
  shows "cleanText (extract_code t) = t"
proof (cases "t = []")
  case True
  then show ?thesis by (simp add: extract_code_def)
next
  case False
  obtain clean1 ph1 idx1 where b: "extract_blocks ([], 0) t = (clean1, ph1, idx1)"
    by (cases "extract_blocks ([], 0) t")
  obtain clean2 ph2 idx2 where i: "extract_inline (ph1, idx1) clean1 = (clean2, ph2, idx2)"
    by (cases "extract_inline (ph1, idx1) clean1")
  from False b i have e: "cleanText (extract_code t) = clean2" "placeholders (extract_code t) = ph2"
    by (simp_all add: extract_code_def)
  have "ph_inv 0 []" by (simp add: ph_inv_def keys_below_def)
  with extract_blocks_count[OF b] have 1: "ph_inv idx1 ph1" "length ph1 = 0 \<longrightarrow> clean1 = t" by auto
  from extract_inline_count[OF i] 1(1) have 2: "length ph1 \<le> length ph2" "length ph2 = length ph1 \<longrightarrow> clean2 = clean1"
    by auto
  from assms e have "length ph2 = 0" by simp
  with 1 2 e show ?thesis by auto
qed

lemma restore_no_span:
  assumes "placeholders (extract_code t) = []"
  shows "restore (cleanText (extract_code t)) (placeholders (extract_code t)) = t"
  using extract_code_no_span[OF assms] assms by (simp add: restore_def)

text \<open>
  C2 (as amended). Restoring the clean text of \<open>extract\<close> with the placeholder map of
  \<open>extract\<close> gives the string back, for a string without code spans, and for a string in
  which neither name of a placeholder followed by a digit, \<open>CODE_BLOCK_\<close>\<^emph>\<open>d\<close> or
  \<open>INLINE_CODE_\<close>\<^emph>\<open>d\<close>, occurs, provided neither occurs in a code span kept in the
  placeholder map (the string holding none, this says that no inline span encloses the
  placeholder of a fenced block). Underscores and the bare names, in the text or in the
  code, do no harm.
\<close>

theorem C2_restore_extract:
  assumes "placeholders (extract_code t) = [] \<or>
     (name_free t \<and> (\<forall>kv \<in> set (placeholders (extract_code t)). name_free (snd kv)))"
  shows "restore (cleanText (extract_code t)) (placeholders (extract_code t)) = t"
proof (cases "placeholders (extract_code t) = [] \<or> t = []")
  case True
  then show ?thesis
  proof
    assume "placeholders (extract_code t) = []"
    then show ?thesis by (rule restore_no_span)
  next
    assume "t = []"
    then show ?thesis by (simp add: extract_code_def restore_def)
  qed
next
  case False
  with assms have nf: "name_free t" "\<forall>kv \<in> set (placeholders (extract_code t)). name_free (snd kv)"
    and ne0: "t \<noteq> []" by auto
  let ?ph = "placeholders (extract_code t)" and ?clean = "cleanText (extract_code t)"
  from extract_code_tmpl[OF ne0 nf] obtain idx where
    i: "ph_inv idx ?ph" and cs: "\<forall>(k, v) \<in> set ?ph. code_span v" and tm: "tmpl (set ?ph) ?clean t" by blast
  have ne: "?clean \<noteq> []" using tm ne0 tmpl_Nil_left by fastforce
  have "distinct (map fst ?ph)" using i by (simp add: ph_inv_def)
  moreover have "\<forall>(k, v) \<in> set ?ph. is_key k \<and> code_span v"
    using ph_inv_keys[OF i] cs by fastforce
  ultimately have "foldl restore_step ?clean ?ph = t" using tm by (rule restore_tmpl)
  then show ?thesis using ne by (auto simp: restore_def)
qed

definition snake_text :: jsstring where
  "snake_text = js ''snake_case CODE_BLOCK_ : use `my_var` now```f_g __init__```''"

definition plain_text :: jsstring where
  "plain_text = js ''__CODE_BLOCK_0__ is a placeholder''"

lemma snake_extract:
  "extract_code snake_text =
     \<lparr>cleanText = js ''snake_case CODE_BLOCK_ : use __INLINE_CODE_1__ now__CODE_BLOCK_0__'',
      placeholders = [(js ''__CODE_BLOCK_0__'', js ''```f_g __init__```''),
                      (js ''__INLINE_CODE_1__'', js ''`my_var`'')]\<rparr>"
  unfolding snake_text_def by code_simp

lemma snake_name_free:
  "name_free snake_text" "name_free (js ''```f_g __init__```'')" "name_free (js ''`my_var`'')"
  unfolding snake_text_def by code_simp+

lemma plain_extract:
  "extract_code plain_text = \<lparr>cleanText = plain_text, placeholders = []\<rparr>"
  unfolding plain_text_def by code_simp

theorem C2_restore_extract_witness:
  "name_free snake_text \<and>
   placeholders (extract_code snake_text) =
     [(js ''__CODE_BLOCK_0__'', js ''```f_g __init__```''), (js ''__INLINE_CODE_1__'', js ''`my_var`'')] \<and>
   name_free (js ''```f_g __init__```'') \<and> name_free (js ''`my_var`'') \<and>
   cleanText (extract_code snake_text) =
     js ''snake_case CODE_BLOCK_ : use __INLINE_CODE_1__ now__CODE_BLOCK_0__'' \<and>
   restore (js ''snake_case CODE_BLOCK_ : use __INLINE_CODE_1__ now__CODE_BLOCK_0__'')
     [(js ''__CODE_BLOCK_0__'', js ''```f_g __init__```''), (js ''__INLINE_CODE_1__'', js ''`my_var`'')] =
     snake_text \<and>
   placeholders (extract_code plain_text) = [] \<and>
   restore (cleanText (extract_code plain_text)) (placeholders (extract_code plain_text)) = plain_text"
proof -
  have h2: "\<forall>kv \<in> set (placeholders (extract_code snake_text)). name_free (snd kv)"
    unfolding snake_extract by (simp add: snake_name_free)
  have h: "placeholders (extract_code snake_text) = [] \<or>
     (name_free snake_text \<and> (\<forall>kv \<in> set (placeholders (extract_code snake_text)). name_free (snd kv)))"
    using snake_name_free(1) h2 by blast
  have p: "placeholders (extract_code plain_text) = []" by (simp add: plain_extract)
  then have hp: "placeholders (extract_code plain_text) = [] \<or>
     (name_free plain_text \<and> (\<forall>kv \<in> set (placeholders (extract_code plain_text)). name_free (snd kv)))"
    by blast
  have 1: "restore (js ''snake_case CODE_BLOCK_ : use __INLINE_CODE_1__ now__CODE_BLOCK_0__'')
     [(js ''__CODE_BLOCK_0__'', js ''```f_g __init__```''), (js ''__INLINE_CODE_1__'', js ''`my_var`'')] =
     snake_text"
    using C2_restore_extract[OF h] unfolding snake_extract by simp
  have 2: "restore (cleanText (extract_code plain_text)) (placeholders (extract_code plain_text)) = plain_text"
    using C2_restore_extract[OF hp] .
  show ?thesis using 1 2 p snake_name_free unfolding snake_extract by simp
qed

text \<open>
  As stated, for every string, C2 fails: a string that already holds the text of a
  placeholder is not given back.
\<close>

theorem C2_placeholder_in_text_counterexample:
  "restore (cleanText (extract_code (js ''__INLINE_CODE_0__ `a`'')))
           (placeholders (extract_code (js ''__INLINE_CODE_0__ `a`''))) = js ''`a` `a`'' \<and>
   js ''`a` `a`'' \<noteq> js ''__INLINE_CODE_0__ `a`''"
  by code_simp

text \<open>
  Placeholders are restored in insertion order, fenced blocks first; an inline span that
  encloses the placeholder of a fenced block keeps that placeholder.
\<close>

lemma restore_nested_span:
  "restore (cleanText (extract_code (js ''` ```a``` `'')))
           (placeholders (extract_code (js ''` ```a``` `''))) = js ''` __CODE_BLOCK_0__ `''"
  by code_simp

subsection \<open>isCodeOnly, characterised\<close>

fun whitespace_only :: "jsstring \<Rightarrow> bool" where
  "whitespace_only [] = True"
| "whitespace_only (c # s) = (is_ws c \<and> whitespace_only s)"

lemma whitespace_only_iff: "whitespace_only s \<longleftrightarrow> (\<forall>c \<in> set s. is_ws c)"
  by (induction s) auto

lemma trim_empty_iff: "trim s = [] \<longleftrightarrow> whitespace_only s"
proof
  assume "trim s = []"
  then have "dropWhile is_ws (rev (dropWhile is_ws s)) = []" by (simp add: trim_def)
  then have a: "\<forall>c \<in> set (dropWhile is_ws s). is_ws c" by (simp add: dropWhile_eq_Nil_conv)
  have "dropWhile is_ws s = []"
  proof (rule ccontr)
    assume n: "dropWhile is_ws s \<noteq> []"
    then have "\<not> is_ws (hd (dropWhile is_ws s))" by (rule hd_dropWhile)
    moreover from n have "hd (dropWhile is_ws s) \<in> set (dropWhile is_ws s)" by simp
    ultimately show False using a by blast
  qed
  then show "whitespace_only s" by (simp add: dropWhile_eq_Nil_conv whitespace_only_iff)
next
  assume "whitespace_only s"
  then have d: "dropWhile is_ws s = []" by (simp add: dropWhile_eq_Nil_conv whitespace_only_iff)
  show "trim s = []" unfolding trim_def d by simp
qed

text \<open>
  C9 (as amended). On a non-empty string, \<open>isCodeOnly\<close> holds exactly when the clean text of
  \<open>extract\<close>, with all placeholders stripped, consists of white space only; on the empty
  string it is false.
\<close>

theorem C9_isCodeOnly_nonempty:
  "isCodeOnly t \<longleftrightarrow>
     t \<noteq> [] \<and> whitespace_only (strip_placeholders (cleanText (extract_code t)))"
  by (simp add: isCodeOnly_def trim_empty_iff)

text \<open>
  As stated, for every string, C9 fails at the empty string: nothing but white space is
  left, and \<open>isCodeOnly\<close> is false.
\<close>

theorem C9_empty_string_counterexample:
  "\<not> (isCodeOnly [] \<longleftrightarrow> whitespace_only (strip_placeholders (cleanText (extract_code []))))"
  by (simp add: isCodeOnly_def extract_code_def)


section \<open>JavaScript values\<close>

text \<open>
  Numbers: the payloads hold counts of tokens and of seconds, so a finite number is an
  integer here: \<open>Fin i\<close> is the double whose value is the integer \<open>i\<close> (a number with a
  fraction is not a value of the model). \<open>NaN\<close> and the infinities are values of their own.
  Where the code computes with numbers, the result is rounded as the arithmetic of doubles
  rounds it (\<open>round_double\<close> below).
\<close>

datatype jsnum = NaN | NegInf | Fin int | PosInf

text \<open>
  The values of parsed JSON, with \<open>undefined\<close> for a property that is not there and
  \<open>JNative\<close> for a function or object of the runtime (what a plain object inherits from
  \<open>Object.prototype\<close>). An object lists its own properties in order.
\<close>

datatype jsval =
    JUndefined
  | JNull
  | JBool bool
  | JNum jsnum
  | JStr jsstring
  | JArr "jsval list"
  | JObj "(jsstring \<times> jsval) list"
  | JNative

type_synonym jsobject = "(jsstring \<times> jsval) list"

text \<open>ToBoolean.\<close>

fun truthy :: "jsval \<Rightarrow> bool" where
  "truthy JUndefined = False"
| "truthy JNull = False"
| "truthy (JBool b) = b"
| "truthy (JNum n) = (n \<noteq> NaN \<and> n \<noteq> Fin 0)"
| "truthy (JStr s) = (s \<noteq> [])"
| "truthy (JArr xs) = True"
| "truthy (JObj kvs) = True"
| "truthy JNative = True"

definition nullish :: "jsval \<Rightarrow> bool" where
  "nullish v \<longleftrightarrow> v = JUndefined \<or> v = JNull"

text \<open>
  \<open>o.k\<close> for the property names the relay reads (none is a name of \<open>Object.prototype\<close>, an
  array index or \<open>length\<close>): the own property of an object, \<open>undefined\<close> on any other value
  that is not nullish. On \<open>null\<close> and \<open>undefined\<close> the access throws; the functions below
  say where that happens. \<open>o?.k\<close> is \<open>opt_get\<close>.
\<close>

fun get_prop :: "jsval \<Rightarrow> jsstring \<Rightarrow> jsval" where
  "get_prop (JObj kvs) k = (case map_of kvs k of None \<Rightarrow> JUndefined | Some v \<Rightarrow> v)"
| "get_prop v k = JUndefined"

definition opt_get :: "jsval \<Rightarrow> jsstring \<Rightarrow> jsval" where
  "opt_get v k = (if nullish v then JUndefined else get_prop v k)"

text \<open>\<open>a || b\<close>.\<close>

definition js_or :: "jsval \<Rightarrow> jsval \<Rightarrow> jsval" where
  "js_or a b = (if truthy a then a else b)"

section \<open>Translation service (translationService.js)\<close>

text \<open>
  \<open>languageNames\<close> is the object literal \<open>{zh: 'Chinese', en: 'English'}\<close>; a lookup
  \<open>this.languageNames[lang]\<close> that finds no own property goes on to \<open>Object.prototype\<close>.
\<close>

definition Object_prototype_names :: "jsstring list" where
  "Object_prototype_names =
     [js ''constructor'', js ''__defineGetter__'', js ''__defineSetter__'',
      js ''hasOwnProperty'', js ''__lookupGetter__'', js ''__lookupSetter__'',
      js ''isPrototypeOf'', js ''propertyIsEnumerable'', js ''toString'', js ''valueOf'',
      js ''__proto__'', js ''toLocaleString'']"

definition languageNames :: "jsstring \<Rightarrow> jsval" where
  "languageNames lang =
     (if lang = js ''zh'' then JStr (js ''Chinese'')
      else if lang = js ''en'' then JStr (js ''English'')
      else if lang \<in> set Object_prototype_names then JNative
      else JUndefined)"

text \<open>
  What \<open>translate\<close> can throw: its own error, or whatever \<open>_makeOpenAICompatibleRequest\<close>
  throws (no account configured, HTTP error, malformed response, timeout), which is
  kept as its message.
\<close>

datatype error =
    UnsupportedLanguage jsstring jsstring
  | RequestFailed jsstring
  | TypeError

text \<open>
  The collaborators of \<open>translate\<close> that are not part of the module: the LRU cache
  (\<open>utils/lruCache\<close>), the hash of the cache key, and the HTTP call to the translator
  account. They read and change state outside the module (cache content, the network),
  which is the world \<open>'w\<close> passed along. \<open>call_api w text src tgt\<close> stands for
  \<open>_makeOpenAICompatibleRequest(systemPrompt, userPrompt)\<close>, the prompts being
  determined by the text and the two languages.
\<close>

record 'w services =
  cache_key :: "jsstring \<Rightarrow> jsstring \<Rightarrow> jsstring \<Rightarrow> jsstring"
  cache_get :: "'w \<Rightarrow> jsstring \<Rightarrow> jsstring option \<times> 'w"
  cache_set :: "'w \<Rightarrow> jsstring \<Rightarrow> jsstring \<Rightarrow> 'w"
  call_api :: "'w \<Rightarrow> jsstring \<Rightarrow> jsstring \<Rightarrow> jsstring \<Rightarrow> (jsstring + jsstring) \<times> 'w"

text \<open>\<open>_callTranslationAPI\<close>: the response of the request, trimmed.\<close>

definition callTranslationAPI ::
  "'w services \<Rightarrow> 'w \<Rightarrow> jsstring \<Rightarrow> jsstring \<Rightarrow> jsstring \<Rightarrow> (error + jsstring) \<times> 'w" where
  "callTranslationAPI sv w text sourceLang targetLang =
     (case call_api sv w text sourceLang targetLang of
        (Inl msg, w') \<Rightarrow> (Inl (RequestFailed msg), w')
      | (Inr response, w') \<Rightarrow> (Inr (trim response), w'))"

text \<open>
  The second half of \<open>translate\<close>, from the cache key on: the cached value if there is
  one (the empty string is falsy and counts as a miss), else the answer of the API, which
  is stored in the cache.
\<close>

definition translate_uncached ::
  "'w services \<Rightarrow> 'w \<Rightarrow> jsstring \<Rightarrow> jsstring \<Rightarrow> jsstring \<Rightarrow> jsstring \<Rightarrow> (error + jsstring) \<times> 'w" where
  "translate_uncached sv w cacheKey text sourceLang targetLang =
     (case callTranslationAPI sv w text sourceLang targetLang of
        (Inl e, w') \<Rightarrow> (Inl e, w')
      | (Inr translated, w') \<Rightarrow> (Inr translated, cache_set sv w' cacheKey translated))"

definition translate_lookup ::
  "'w services \<Rightarrow> 'w \<Rightarrow> jsstring \<Rightarrow> jsstring \<Rightarrow> jsstring \<Rightarrow> (error + jsstring) \<times> 'w" where
  "translate_lookup sv w text sourceLang targetLang =
     (let cacheKey = cache_key sv text sourceLang targetLang
      in case cache_get sv w cacheKey of
           (Some c, w') \<Rightarrow>
             if c \<noteq> [] then (Inr c, w')
             else translate_uncached sv w' cacheKey text sourceLang targetLang
         | (None, w') \<Rightarrow> translate_uncached sv w' cacheKey text sourceLang targetLang)"

text \<open>\<open>translate\<close>, for a string \<open>text\<close>.\<close>

definition translate ::
  "'w services \<Rightarrow> 'w \<Rightarrow> jsstring \<Rightarrow> jsstring \<Rightarrow> jsstring \<Rightarrow> (error + jsstring) \<times> 'w" where
  "translate sv w text sourceLang targetLang =
     (if trim text = [] then (Inr text, w)
      else if \<not> truthy (languageNames sourceLang) \<or> \<not> truthy (languageNames targetLang)
      then (Inl (UnsupportedLanguage sourceLang targetLang), w)
      else if sourceLang = targetLang then (Inr text, w)
      else translate_lookup sv w text sourceLang targetLang)"

definition is_unsupported :: "error + jsstring \<Rightarrow> bool" where
  "is_unsupported r = (case r of Inl (UnsupportedLanguage s t) \<Rightarrow> True | _ \<Rightarrow> False)"

definition supported :: "jsstring \<Rightarrow> bool" where
  "supported lang \<longleftrightarrow> lang = js ''zh'' \<or> lang = js ''en''"

text \<open>
  A world for examples: the cache is always empty, and the translator account answers
  with the text between two spaces and brackets.
\<close>

definition demo_services :: "unit services" where
  "demo_services =
     \<lparr>cache_key = (\<lambda>text s t. s @ js '':'' @ t @ js '':'' @ text),
      cache_get = (\<lambda>w k. (None, w)),
      cache_set = (\<lambda>w k v. w),
      call_api = (\<lambda>w text s t. (Inr (js '' ['' @ text @ js ''] ''), w))\<rparr>"


subsection \<open>The guards of translate\<close>

lemma supported_truthy:
  "lang \<notin> set Object_prototype_names \<Longrightarrow> truthy (languageNames lang) \<longleftrightarrow> supported lang"
  by (simp add: languageNames_def supported_def js_def)

lemma supported_truthy': "supported lang \<Longrightarrow> truthy (languageNames lang)"
  by (auto simp: languageNames_def supported_def js_def)

lemma callTranslationAPI_not_unsupported:
  "\<not> is_unsupported (fst (callTranslationAPI sv w text s t))"
  by (auto simp: callTranslationAPI_def is_unsupported_def split: prod.splits sum.splits)

lemma translate_lookup_not_unsupported:
  "\<not> is_unsupported (fst (translate_lookup sv w x s t))"
proof -
  have u: "\<not> is_unsupported (fst (translate_uncached sv w' k x s t))" for w' k
    using callTranslationAPI_not_unsupported[of sv w' x s t]
    by (auto simp: translate_uncached_def split: prod.splits sum.splits)
  have i: "\<not> is_unsupported (Inr c)" for c by (simp add: is_unsupported_def)
  show ?thesis
    by (auto simp: translate_lookup_def Let_def u i split: prod.splits option.splits)
qed

lemma translate_blank: "whitespace_only text \<Longrightarrow> translate sv w text s t = (Inr text, w)"
  by (simp add: translate_def trim_empty_iff)


lemma translate_same:
  "\<not> whitespace_only x \<Longrightarrow> supported s \<Longrightarrow> translate sv w x s s = (Inr x, w)"
  by (simp add: translate_def trim_empty_iff supported_truthy')

lemma translate_unsupported:
  assumes "\<not> whitespace_only x" "s \<notin> set Object_prototype_names" "t \<notin> set Object_prototype_names"
  shows "is_unsupported (fst (translate sv w x s t)) \<longleftrightarrow> \<not> (supported s \<and> supported t)"
proof (cases "supported s \<and> supported t")
  case False
  with assms have "\<not> truthy (languageNames s) \<or> \<not> truthy (languageNames t)"
    by (simp add: supported_truthy)
  with assms(1) have "translate sv w x s t = (Inl (UnsupportedLanguage s t), w)"
    by (simp add: translate_def trim_empty_iff)
  with False show ?thesis by (simp add: is_unsupported_def)
next
  case True
  then have tr: "truthy (languageNames s)" "truthy (languageNames t)" by (auto simp: supported_truthy')
  have "translate sv w x s t = (Inr x, w) \<or> translate sv w x s t = translate_lookup sv w x s t"
    using assms(1) tr by (simp add: translate_def trim_empty_iff)
  then have "\<not> is_unsupported (fst (translate sv w x s t))"
    using translate_lookup_not_unsupported[of sv w x s t] by (auto simp: is_unsupported_def)
  with True show ?thesis by simp
qed


text \<open>
  C5 (as amended). \<open>translate\<close> returns a text that is empty or white space as it is,
  whatever the two language codes. On any other text, and for language codes that are not
  names of \<open>Object.prototype\<close>, it fails with the unsupported-language error exactly when
  one of the codes is neither \<open>zh\<close> nor \<open>en\<close>; and when the two codes are equal and
  supported it returns the text as it is.
\<close>

theorem C5_translate_guards:
  "(whitespace_only str \<longrightarrow> translate sv w str s t = (Inr str, w)) \<and>
   (\<not> whitespace_only str \<and> s \<notin> set Object_prototype_names \<and> t \<notin> set Object_prototype_names \<longrightarrow>
      (is_unsupported (fst (translate sv w str s t)) \<longleftrightarrow> \<not> (supported s \<and> supported t))) \<and>
   (\<not> whitespace_only str \<and> supported s \<and> s = t \<longrightarrow> translate sv w str s t = (Inr str, w))"
proof (intro conjI impI)
  assume "whitespace_only str"
  then show "translate sv w str s t = (Inr str, w)" by (rule translate_blank)
next
  assume a: "\<not> whitespace_only str \<and> s \<notin> set Object_prototype_names \<and> t \<notin> set Object_prototype_names"
  show "is_unsupported (fst (translate sv w str s t)) \<longleftrightarrow> \<not> (supported s \<and> supported t)"
    by (rule translate_unsupported) (use a in simp_all)
next
  assume a: "\<not> whitespace_only str \<and> supported s \<and> s = t"
  then have n: "\<not> whitespace_only str" and p: "supported s" and e: "t = s" by auto
  show "translate sv w str s t = (Inr str, w)" unfolding e using n p by (rule translate_same)
qed

theorem C5_translate_guards_witness:
  "whitespace_only (js '' '') \<and>
   translate demo_services () (js '' '') (js ''fr'') (js ''fr'') = (Inr (js '' ''), ()) \<and>
   \<not> whitespace_only (js ''hello'') \<and>
   is_unsupported (fst (translate demo_services () (js ''hello'') (js ''zh'') (js ''fr''))) \<and>
   \<not> is_unsupported (fst (translate demo_services () (js ''hello'') (js ''zh'') (js ''en''))) \<and>
   translate demo_services () (js ''hello'') (js ''zh'') (js ''zh'') = (Inr (js ''hello''), ())"
proof -
  have b: "whitespace_only (js '' '')" by (simp add: js_def is_ws_def)
  have n: "\<not> whitespace_only (js ''hello'')" by (simp add: js_def is_ws_def)
  have p: "js ''zh'' \<notin> set Object_prototype_names" "js ''fr'' \<notin> set Object_prototype_names"
    "js ''en'' \<notin> set Object_prototype_names"
    by (simp_all add: Object_prototype_names_def js_def)
  have s: "supported (js ''zh'')" "supported (js ''en'')" "\<not> supported (js ''fr'')"
    by (simp_all add: supported_def js_def)
  note c1 = C5_translate_guards[where str = "js '' ''" and sv = demo_services and w = "()"
        and s = "js ''fr''" and t = "js ''fr''"]
  note c2 = C5_translate_guards[where str = "js ''hello''" and sv = demo_services and w = "()"
        and s = "js ''zh''" and t = "js ''fr''"]
  note c3 = C5_translate_guards[where str = "js ''hello''" and sv = demo_services and w = "()"
        and s = "js ''zh''" and t = "js ''en''"]
  note c4 = C5_translate_guards[where str = "js ''hello''" and sv = demo_services and w = "()"
        and s = "js ''zh''" and t = "js ''zh''"]
  have 1: "translate demo_services () (js '' '') (js ''fr'') (js ''fr'') = (Inr (js '' ''), ())"
    by (rule c1[THEN conjunct1, THEN mp, OF b])
  have "is_unsupported (fst (translate demo_services () (js ''hello'') (js ''zh'') (js ''fr''))) =
      (\<not> (supported (js ''zh'') \<and> supported (js ''fr'')))"
    by (rule c2[THEN conjunct2, THEN conjunct1, THEN mp]) (intro conjI n p)
  then have 2: "is_unsupported (fst (translate demo_services () (js ''hello'') (js ''zh'') (js ''fr'')))"
    using s(3) by (simp only: simp_thms)
  have "is_unsupported (fst (translate demo_services () (js ''hello'') (js ''zh'') (js ''en''))) =
      (\<not> (supported (js ''zh'') \<and> supported (js ''en'')))"
    by (rule c3[THEN conjunct2, THEN conjunct1, THEN mp]) (intro conjI n p)
  then have 3: "\<not> is_unsupported (fst (translate demo_services () (js ''hello'') (js ''zh'') (js ''en'')))"
    using s(1,2) by (simp only: simp_thms)
  have 4: "translate demo_services () (js ''hello'') (js ''zh'') (js ''zh'') = (Inr (js ''hello''), ())"
    by (rule c4[THEN conjunct2, THEN conjunct2, THEN mp]) (intro conjI n s refl)
  show ?thesis by (intro conjI b n 1 2 3 4)
qed

text \<open>
  As stated, C5 fails: with equal codes that are not supported, a text that is not blank
  is not returned, the call fails (the languages are checked before they are compared); and
  with codes that are not supported a blank text makes no error.
\<close>

theorem C5_equal_unsupported_counterexample:
  "fst (translate demo_services () (js ''hello'') (js ''fr'') (js ''fr'')) =
     Inl (UnsupportedLanguage (js ''fr'') (js ''fr'')) \<and>
   fst (translate demo_services () (js '' '') (js ''fr'') (js ''de'')) = Inr (js '' '')"
  by (simp add: translate_def trim_def js_def is_ws_def languageNames_def Object_prototype_names_def)

text \<open>A name that a plain object inherits passes the check of \<open>languageNames\<close>.\<close>

lemma translate_inherited_name:
  "fst (translate demo_services () (js ''hello'') (js ''toString'') (js ''toString'')) = Inr (js ''hello'')"
  by (simp add: translate_def trim_def js_def is_ws_def languageNames_def Object_prototype_names_def)


section \<open>Response translator (responseTranslator.js)\<close>

text \<open>
  The state of one \<open>ResponseTranslator\<close>. The output stream is the Express response:
  what matters of it is whether it is writable and what has been written, one entry per
  call of \<open>write\<close>; the entry is the event whose JSON text
  \<open>data: ${JSON.stringify(event)}\n\n\<close> was written. An SSE event is a parsed JSON object,
  the list of its properties. Method names lose their leading underscore.
\<close>

record rt_stats =
  totalEvents :: nat
  textDeltas :: nat
  sentencesTranslated :: nat
  translationErrors :: nat
  passedThrough :: nat

record stream =
  writable :: bool
  written :: "jsval list"

record translator =
  enabled :: bool
  outputStream :: "stream option"
  currentBlockType :: jsval
  currentBlockIndex :: jsval
  sentenceBuffer :: jsstring
  stats :: rt_stats

definition new_ResponseTranslator :: "jsval \<Rightarrow> stream option \<Rightarrow> translator" where
  "new_ResponseTranslator account out =
     \<lparr>enabled = (opt_get account (js ''enableTranslation'') = JBool True \<or>
                 opt_get account (js ''enableTranslation'') = JStr (js ''true'')),
      outputStream = out,
      currentBlockType = JNull,
      currentBlockIndex = JNull,
      sentenceBuffer = [],
      stats = \<lparr>totalEvents = 0, textDeltas = 0, sentencesTranslated = 0,
                translationErrors = 0, passedThrough = 0\<rparr>\<rparr>"

text \<open>\<open>_writeSSE\<close>: a write happens only on a stream that is there and writable.\<close>

definition writeSSE :: "translator \<Rightarrow> jsval \<Rightarrow> translator" where
  "writeSSE t event =
     (case outputStream t of
        None \<Rightarrow> t
      | Some s \<Rightarrow>
          if writable s then t\<lparr>outputStream := Some (s\<lparr>written := written s @ [event]\<rparr>)\<rparr>
          else t)"

definition passthrough :: "translator \<Rightarrow> jsobject \<Rightarrow> translator" where
  "passthrough t event =
     writeSSE (t\<lparr>stats := (stats t)\<lparr>passedThrough := passedThrough (stats t) + 1\<rparr>\<rparr>) (JObj event)"

definition text_delta_event :: "jsval \<Rightarrow> jsstring \<Rightarrow> jsval" where
  "text_delta_event index s =
     JObj [(js ''type'', JStr (js ''content_block_delta'')),
           (js ''index'', index),
           (js ''delta'', JObj [(js ''type'', JStr (js ''text_delta'')), (js ''text'', JStr s)])]"

definition emitTextDelta :: "translator \<Rightarrow> jsstring \<Rightarrow> translator" where
  "emitTextDelta t s = (if s = [] then t else writeSSE t (text_delta_event (currentBlockIndex t) s))"

text \<open>
  \<open>_translateSentence\<close>: the sentence, the world before and after, and the counters.
  The \<open>catch\<close> takes whatever \<open>translate\<close> throws.
\<close>

definition translateSentence ::
  "'w services \<Rightarrow> 'w \<times> translator \<Rightarrow> jsstring \<Rightarrow> jsstring \<times> 'w \<times> translator" where
  "translateSentence sv st sentence =
     (let (w, t) = st in
      if sentence = [] then (sentence, w, t)
      else (let ex = extract_code sentence in
            if trim (cleanText ex) = [] then (sentence, w, t)
            else (case translate sv w (cleanText ex) (js ''en'') (js ''zh'') of
                    (Inr translated, w') \<Rightarrow>
                      (restore translated (placeholders ex), w',
                       t\<lparr>stats := (stats t)\<lparr>sentencesTranslated := sentencesTranslated (stats t) + 1\<rparr>\<rparr>)
                  | (Inl e, w') \<Rightarrow>
                      (sentence, w',
                       t\<lparr>stats := (stats t)\<lparr>translationErrors := translationErrors (stats t) + 1\<rparr>\<rparr>))))"

definition handleBlockStart :: "translator \<Rightarrow> jsobject \<Rightarrow> translator" where
  "handleBlockStart t event =
     passthrough
       (t\<lparr>currentBlockType :=
              js_or (opt_get (get_prop (JObj event) (js ''content_block'')) (js ''type'')) JNull,
           currentBlockIndex := get_prop (JObj event) (js ''index''),
           sentenceBuffer := reset (sentenceBuffer t)\<rparr>)
       event"

text \<open>\<open>SentenceBuffer.add\<close> on any value: what is not a string is refused by its guard.\<close>

definition add_value :: "jsstring \<Rightarrow> jsval \<Rightarrow> jsstring list \<times> jsstring" where
  "add_value buffer v = (case v of JStr s \<Rightarrow> add buffer s | _ \<Rightarrow> ([], buffer))"

text \<open>The loop \<open>for (const sentence of completeSentences)\<close>.\<close>

fun emit_sentences ::
  "'w services \<Rightarrow> 'w \<times> translator \<Rightarrow> jsstring list \<Rightarrow> 'w \<times> translator" where
  "emit_sentences sv st [] = st"
| "emit_sentences sv st (sentence # rest) =
     (let (translated, w', t') = translateSentence sv st sentence
      in emit_sentences sv (w', emitTextDelta t' translated) rest)"

definition handleDelta :: "'w services \<Rightarrow> 'w \<times> translator \<Rightarrow> jsobject \<Rightarrow> 'w \<times> translator" where
  "handleDelta sv st event =
     (let (w, t) = st in
      if currentBlockType t = JStr (js ''tool_use'') then (w, passthrough t event)
      else if currentBlockType t = JStr (js ''text'') \<and>
              truthy (opt_get (get_prop (JObj event) (js ''delta'')) (js ''text''))
      then (let t1 = t\<lparr>stats := (stats t)\<lparr>textDeltas := textDeltas (stats t) + 1\<rparr>\<rparr>;
                (completeSentences, buffer') =
                   add_value (sentenceBuffer t1) (get_prop (get_prop (JObj event) (js ''delta'')) (js ''text''))
            in emit_sentences sv (w, t1\<lparr>sentenceBuffer := buffer'\<rparr>) completeSentences)
      else (w, passthrough t event))"

definition handleBlockStop :: "'w services \<Rightarrow> 'w \<times> translator \<Rightarrow> jsobject \<Rightarrow> 'w \<times> translator" where
  "handleBlockStop sv st event =
     (let (w, t) = st;
          (w1, t1) =
            (if currentBlockType t = JStr (js ''text'')
             then (let (remaining, buffer') = flush (sentenceBuffer t);
                       t' = t\<lparr>sentenceBuffer := buffer'\<rparr>
                   in if remaining \<noteq> [] \<and> trim remaining \<noteq> []
                      then (let (translated, w', t'') = translateSentence sv (w, t') remaining
                            in (w', emitTextDelta t'' translated))
                      else (w, t'))
             else (w, t))
      in (w1, passthrough (t1\<lparr>currentBlockType := JNull, currentBlockIndex := JNull\<rparr>) event))"

definition processEvent :: "'w services \<Rightarrow> 'w \<times> translator \<Rightarrow> jsobject \<Rightarrow> 'w \<times> translator" where
  "processEvent sv st event =
     (let (w, t0) = st;
          t = t0\<lparr>stats := (stats t0)\<lparr>totalEvents := totalEvents (stats t0) + 1\<rparr>\<rparr>
      in if \<not> enabled t then (w, passthrough t event)
         else if get_prop (JObj event) (js ''type'') = JStr (js ''content_block_start'')
         then (w, handleBlockStart t event)
         else if get_prop (JObj event) (js ''type'') = JStr (js ''content_block_delta'')
         then handleDelta sv (w, t) event
         else if get_prop (JObj event) (js ''type'') = JStr (js ''content_block_stop'')
         then handleBlockStop sv (w, t) event
         else (w, passthrough t event))"

text \<open>The events of one response, one \<open>processEvent\<close> after the other.\<close>

fun process_all :: "'w services \<Rightarrow> 'w \<times> translator \<Rightarrow> jsobject list \<Rightarrow> 'w \<times> translator" where
  "process_all sv st [] = st"
| "process_all sv st (event # events) = process_all sv (processEvent sv st event) events"

text \<open>What the client has been sent, and whether a write would reach it.\<close>

definition sent_events :: "translator \<Rightarrow> jsval list" where
  "sent_events t = (case outputStream t of None \<Rightarrow> [] | Some s \<Rightarrow> written s)"

definition can_write :: "translator \<Rightarrow> bool" where
  "can_write t = (case outputStream t of None \<Rightarrow> False | Some s \<Rightarrow> writable s)"

text \<open>
  A text delta, as \<open>_handleDelta\<close> tells it: a \<open>content_block_delta\<close> whose \<open>delta.text\<close> is
  truthy. Every other event is a non-text event.
\<close>

definition is_text_delta :: "jsval \<Rightarrow> bool" where
  "is_text_delta event \<longleftrightarrow>
     get_prop event (js ''type'') = JStr (js ''content_block_delta'') \<and>
     truthy (opt_get (get_prop event (js ''delta'')) (js ''text''))"

definition non_text :: "jsval list \<Rightarrow> jsval list" where
  "non_text events = filter (\<lambda>e. \<not> is_text_delta e) events"


subsection \<open>What reaches the client\<close>

lemma can_write_writeSSE: "can_write (writeSSE t e) = can_write t"
  by (simp add: can_write_def writeSSE_def split: option.splits)

lemma sent_writeSSE:
  "sent_events (writeSSE t e) = (if can_write t then sent_events t @ [e] else sent_events t)"
  by (simp add: can_write_def sent_events_def writeSSE_def split: option.splits)

lemma can_write_stats: "can_write (t\<lparr>stats := x\<rparr>) = can_write t"
  by (simp add: can_write_def)

lemma sent_stats: "sent_events (t\<lparr>stats := x\<rparr>) = sent_events t"
  by (simp add: sent_events_def)

lemma can_write_passthrough: "can_write (passthrough t ev) = can_write t"
  by (simp add: passthrough_def can_write_writeSSE can_write_stats)

lemma sent_passthrough:
  "sent_events (passthrough t ev) = (if can_write t then sent_events t @ [JObj ev] else sent_events t)"
  by (simp add: passthrough_def sent_writeSSE can_write_stats sent_stats)

lemma is_text_delta_synthetic: "s \<noteq> [] \<Longrightarrow> is_text_delta (text_delta_event i s)"
  by (simp add: is_text_delta_def text_delta_event_def opt_get_def nullish_def js_def)

lemma non_text_append: "non_text (xs @ ys) = non_text xs @ non_text ys"
  by (simp add: non_text_def)

lemma can_write_emit: "can_write (emitTextDelta t s) = can_write t"
  by (simp add: emitTextDelta_def can_write_writeSSE)

lemma non_text_emit: "non_text (sent_events (emitTextDelta t s)) = non_text (sent_events t)"
  by (simp add: emitTextDelta_def sent_writeSSE non_text_append is_text_delta_synthetic non_text_def)

lemma translateSentence_stream:
  "translateSentence sv (w, t) s = (x, w', t') \<Longrightarrow>
   outputStream t' = outputStream t \<and> currentBlockIndex t' = currentBlockIndex t \<and>
   currentBlockType t' = currentBlockType t \<and> enabled t' = enabled t"
  by (auto simp: translateSentence_def Let_def split: if_splits prod.splits sum.splits)

lemma translateSentence_obs:
  "translateSentence sv (w, t) s = (x, w', t') \<Longrightarrow>
   can_write t' = can_write t \<and> sent_events t' = sent_events t"
  by (drule translateSentence_stream) (simp add: can_write_def sent_events_def)

lemma emit_sentences_obs:
  "emit_sentences sv (w, t) ss = (w', t') \<Longrightarrow>
   can_write t' = can_write t \<and> non_text (sent_events t') = non_text (sent_events t)"
proof (induction ss arbitrary: w t)
  case Nil
  then show ?case by simp
next
  case (Cons s ss)
  obtain x w1 t1 where tr: "translateSentence sv (w, t) s = (x, w1, t1)"
    by (cases "translateSentence sv (w, t) s")
  with Cons.prems have "emit_sentences sv (w1, emitTextDelta t1 x) ss = (w', t')" by simp
  from Cons.IH[OF this] translateSentence_obs[OF tr] show ?case
    by (simp add: can_write_emit non_text_emit)
qed

text \<open>
  \<open>passes t t' ev\<close>: from \<open>t\<close> to \<open>t'\<close> the stream stays as writable as it was, and the
  non-text events sent grow by the event \<open>ev\<close> if it is a non-text event and the stream
  is writable, and by nothing else.
\<close>

definition passes :: "translator \<Rightarrow> translator \<Rightarrow> jsobject \<Rightarrow> bool" where
  "passes t t' ev \<longleftrightarrow>
     can_write t' = can_write t \<and>
     non_text (sent_events t') =
       non_text (sent_events t) @ (if can_write t then non_text [JObj ev] else [])"

lemma passes_passthrough:
  "can_write t1 = can_write t \<Longrightarrow> non_text (sent_events t1) = non_text (sent_events t) \<Longrightarrow>
   passes t (passthrough t1 ev) ev"
  by (simp add: passes_def can_write_passthrough sent_passthrough non_text_append)

lemma passes_silent:
  "can_write t' = can_write t \<Longrightarrow> non_text (sent_events t') = non_text (sent_events t) \<Longrightarrow>
   is_text_delta (JObj ev) \<Longrightarrow> passes t t' ev"
  by (simp add: passes_def non_text_def)

lemma can_write_fields:
  "can_write (t\<lparr>currentBlockType := a\<rparr>) = can_write t"
  "can_write (t\<lparr>currentBlockIndex := b\<rparr>) = can_write t"
  "can_write (t\<lparr>sentenceBuffer := c\<rparr>) = can_write t"
  by (simp_all add: can_write_def)

lemma sent_fields:
  "sent_events (t\<lparr>currentBlockType := a\<rparr>) = sent_events t"
  "sent_events (t\<lparr>currentBlockIndex := b\<rparr>) = sent_events t"
  "sent_events (t\<lparr>sentenceBuffer := c\<rparr>) = sent_events t"
  by (simp_all add: sent_events_def)

lemma passes_handleBlockStart: "passes t (handleBlockStart t ev) ev"
  unfolding handleBlockStart_def
  by (rule passes_passthrough) (simp_all add: can_write_fields sent_fields)

lemma passes_handleDelta:
  assumes ty: "get_prop (JObj ev) (js ''type'') = JStr (js ''content_block_delta'')"
    and r: "handleDelta sv (w, t) ev = (w', t')"
  shows "passes t t' ev"
proof (cases "currentBlockType t = JStr (js ''tool_use'')")
  case True
  with r have "t' = passthrough t ev" by (simp add: handleDelta_def)
  then show ?thesis by (simp add: passes_passthrough)
next
  case False
  show ?thesis
  proof (cases "currentBlockType t = JStr (js ''text'') \<and>
              truthy (opt_get (get_prop (JObj ev) (js ''delta'')) (js ''text''))")
    case True
    let ?t1 = "t\<lparr>stats := (stats t)\<lparr>textDeltas := textDeltas (stats t) + 1\<rparr>\<rparr>"
    obtain ss b where a: "add_value (sentenceBuffer ?t1)
        (get_prop (get_prop (JObj ev) (js ''delta'')) (js ''text'')) = (ss, b)"
      by (cases "add_value (sentenceBuffer ?t1) (get_prop (get_prop (JObj ev) (js ''delta'')) (js ''text''))")
    from r False True a have "emit_sentences sv (w, ?t1\<lparr>sentenceBuffer := b\<rparr>) ss = (w', t')"
      by (simp add: handleDelta_def Let_def)
    from emit_sentences_obs[OF this]
    have "can_write t' = can_write t" "non_text (sent_events t') = non_text (sent_events t)"
      by (simp_all add: can_write_fields sent_fields can_write_stats sent_stats)
    moreover have "is_text_delta (JObj ev)" using ty True by (simp add: is_text_delta_def)
    ultimately show ?thesis by (rule passes_silent)
  next
    case F2: False
    with r False have "t' = passthrough t ev" by (auto simp: handleDelta_def)
    then show ?thesis by (simp add: passes_passthrough)
  qed
qed

lemma passes_handleBlockStop:
  assumes r: "handleBlockStop sv (w, t) ev = (w', t')"
  shows "passes t t' ev"
proof -
  define pre where "pre =
     (if currentBlockType t = JStr (js ''text'')
      then (let (remaining, buffer') = flush (sentenceBuffer t);
                t' = t\<lparr>sentenceBuffer := buffer'\<rparr>
            in if remaining \<noteq> [] \<and> trim remaining \<noteq> []
               then (let (translated, w', t'') = translateSentence sv (w, t') remaining
                     in (w', emitTextDelta t'' translated))
               else (w, t'))
      else (w, t))"
  obtain w1 t1 where p: "pre = (w1, t1)" by (cases pre)
  have obs: "can_write t1 = can_write t \<and> non_text (sent_events t1) = non_text (sent_events t)"
  proof (cases "currentBlockType t = JStr (js ''text'') \<and> sentenceBuffer t \<noteq> [] \<and> trim (sentenceBuffer t) \<noteq> []")
    case True
    let ?t' = "t\<lparr>sentenceBuffer := []\<rparr>"
    obtain x w2 t2 where tr: "translateSentence sv (w, ?t') (sentenceBuffer t) = (x, w2, t2)"
      by (cases "translateSentence sv (w, ?t') (sentenceBuffer t)")
    with True p have "t1 = emitTextDelta t2 x" by (simp add: pre_def flush_def)
    with translateSentence_obs[OF tr] show ?thesis
      by (simp add: can_write_emit non_text_emit can_write_fields sent_fields)
  next
    case False
    with p have "t1 = t \<or> t1 = t\<lparr>sentenceBuffer := []\<rparr>"
      by (auto simp: pre_def flush_def split: if_splits)
    then show ?thesis by (auto simp: can_write_fields sent_fields)
  qed
  from r p have "t' = passthrough (t1\<lparr>currentBlockType := JNull, currentBlockIndex := JNull\<rparr>) ev"
    by (simp add: handleBlockStop_def pre_def[symmetric])
  then show ?thesis using obs by (simp add: passes_passthrough can_write_fields sent_fields)
qed

lemma passes_processEvent:
  assumes r: "processEvent sv (w, t) ev = (w', t')"
  shows "passes t t' ev"
proof -
  let ?t = "t\<lparr>stats := (stats t)\<lparr>totalEvents := totalEvents (stats t) + 1\<rparr>\<rparr>"
  have o: "can_write ?t = can_write t" "non_text (sent_events ?t) = non_text (sent_events t)"
    by (simp_all add: can_write_stats sent_stats)
  have lift: "passes ?t t' ev \<Longrightarrow> passes t t' ev" using o by (simp add: passes_def)
  consider (pt) "t' = passthrough ?t ev"
    | (st) "t' = handleBlockStart ?t ev"
    | (de) "get_prop (JObj ev) (js ''type'') = JStr (js ''content_block_delta'')"
           "handleDelta sv (w, ?t) ev = (w', t')"
    | (sp) "handleBlockStop sv (w, ?t) ev = (w', t')"
    using r by (auto simp: processEvent_def Let_def split: if_splits)
  then show ?thesis
  proof cases
    case pt
    then show ?thesis using o by (simp add: passes_passthrough)
  next
    case st
    then show ?thesis using passes_handleBlockStart[of ?t ev] lift by simp
  next
    case de
    show ?thesis by (rule lift[OF passes_handleDelta[OF de]])
  next
    case sp
    show ?thesis by (rule lift[OF passes_handleBlockStop[OF sp]])
  qed
qed

lemma process_all_non_text:
  "process_all sv (w, t) evs = (w', t') \<Longrightarrow>
   can_write t' = can_write t \<and>
   non_text (sent_events t') =
     non_text (sent_events t) @ (if can_write t then non_text (map JObj evs) else [])"
proof (induction evs arbitrary: w t)
  case Nil
  then show ?case by (simp add: non_text_def)
next
  case (Cons ev evs)
  obtain w1 t1 where p: "processEvent sv (w, t) ev = (w1, t1)" by (cases "processEvent sv (w, t) ev")
  with Cons.prems have "process_all sv (w1, t1) evs = (w', t')" by simp
  from Cons.IH[OF this] passes_processEvent[OF p] show ?case
    by (simp add: passes_def non_text_def)
qed

text \<open>A few events and a translator for examples.\<close>

definition ev_message_start :: jsobject where
  "ev_message_start = [(js ''type'', JStr (js ''message_start''))]"

definition ev_block_start :: "string \<Rightarrow> jsobject" where
  "ev_block_start ty =
     [(js ''type'', JStr (js ''content_block_start'')), (js ''index'', JNum (Fin 0)),
      (js ''content_block'', JObj [(js ''type'', JStr (js ty))])]"

definition ev_text_delta :: "string \<Rightarrow> jsobject" where
  "ev_text_delta s =
     [(js ''type'', JStr (js ''content_block_delta'')), (js ''index'', JNum (Fin 0)),
      (js ''delta'', JObj [(js ''type'', JStr (js ''text_delta'')), (js ''text'', JStr (js s))])]"

definition ev_ping :: jsobject where
  "ev_ping = [(js ''type'', JStr (js ''ping''))]"

definition ev_block_stop :: jsobject where
  "ev_block_stop = [(js ''type'', JStr (js ''content_block_stop'')), (js ''index'', JNum (Fin 0))]"

definition demo_translator :: "bool \<Rightarrow> translator" where
  "demo_translator can =
     new_ResponseTranslator (JObj [(js ''enableTranslation'', JBool True)])
       (Some \<lparr>writable = can, written = []\<rparr>)"

lemma demo_run:
  "sent_events (snd (process_all demo_services ((), demo_translator True)
     [ev_message_start, ev_block_start ''text'', ev_text_delta ''Hi. yo'', ev_ping, ev_text_delta ''u'', ev_block_stop])) =
   [JObj ev_message_start, JObj (ev_block_start ''text''),
    text_delta_event (JNum (Fin 0)) (js ''[Hi.]''), JObj ev_ping,
    text_delta_event (JNum (Fin 0)) (js ''[ you]''), JObj ev_block_stop]"
  by (simp add: processEvent_def handleBlockStart_def handleDelta_def handleBlockStop_def
      passthrough_def writeSSE_def emitTextDelta_def translateSentence_def add_value_def add_def
      flush_def reset_def sent_events_def demo_translator_def new_ResponseTranslator_def
      ev_message_start_def ev_block_start_def ev_text_delta_def ev_ping_def ev_block_stop_def
      opt_get_def nullish_def js_or_def js_def sentenceEnders_def extract_code_def
      match_fence_def match_inline_def fence_def backtick_def trim_def is_ws_def
      translate_def translate_lookup_def translate_uncached_def callTranslationAPI_def
      languageNames_def demo_services_def restore_def text_delta_event_def Let_def)

text \<open>
  C3 (as amended). While the output stream is writable, the non-text events written to the
  client are, in the order received, the non-text events received: as lists, hence also
  as multisets.
\<close>

theorem C3_non_text_events_preserved:
  assumes "can_write t"
  shows "non_text (sent_events (snd (process_all sv (w, t) events))) =
           non_text (sent_events t) @ non_text (map JObj events) \<and>
         mset (non_text (sent_events (snd (process_all sv (w, t) events)))) =
           mset (non_text (sent_events t)) + mset (non_text (map JObj events))"
proof -
  obtain w' t' where r: "process_all sv (w, t) events = (w', t')"
    by (cases "process_all sv (w, t) events")
  from process_all_non_text[OF r] assms
  have "non_text (sent_events t') = non_text (sent_events t) @ non_text (map JObj events)" by simp
  then show ?thesis using r by simp
qed

theorem C3_non_text_events_witness:
  "can_write (demo_translator True) \<and>
   non_text (sent_events (snd (process_all demo_services ((), demo_translator True)
     [ev_message_start, ev_block_start ''text'', ev_text_delta ''Hi. yo'', ev_ping,
      ev_text_delta ''u'', ev_block_stop]))) =
   [JObj ev_message_start, JObj (ev_block_start ''text''), JObj ev_ping, JObj ev_block_stop]"
proof -
  have c: "can_write (demo_translator True)"
    by (simp add: can_write_def demo_translator_def new_ResponseTranslator_def)
  have s: "sent_events (demo_translator True) = []"
    by (simp add: sent_events_def demo_translator_def new_ResponseTranslator_def)
  have n: "non_text (map JObj [ev_message_start, ev_block_start ''text'', ev_text_delta ''Hi. yo'',
      ev_ping, ev_text_delta ''u'', ev_block_stop]) =
      [JObj ev_message_start, JObj (ev_block_start ''text''), JObj ev_ping, JObj ev_block_stop]"
    by (simp add: non_text_def is_text_delta_def ev_message_start_def ev_block_start_def
        ev_text_delta_def ev_ping_def ev_block_stop_def opt_get_def nullish_def js_def)
  show ?thesis
    using C3_non_text_events_preserved[OF c, of demo_services "()"
        "[ev_message_start, ev_block_start ''text'', ev_text_delta ''Hi. yo'', ev_ping,
          ev_text_delta ''u'', ev_block_stop]"] c
    unfolding s n by (simp add: non_text_def)
qed

text \<open>
  As stated, for every run of an enabled translator, C3 fails when the client's stream is
  not writable: \<open>_writeSSE\<close> then writes nothing, and a ping that was received is not sent.
\<close>

theorem C3_unwritable_stream_counterexample:
  "enabled (demo_translator False) \<and>
   non_text (sent_events (snd (process_all demo_services ((), demo_translator False) [ev_ping]))) = [] \<and>
   non_text (map JObj [ev_ping]) = [JObj ev_ping]"
  by (simp add: processEvent_def passthrough_def writeSSE_def sent_events_def demo_translator_def
      new_ResponseTranslator_def ev_ping_def opt_get_def nullish_def js_def non_text_def
      is_text_delta_def)

text \<open>
  C10. When the translation of a sentence comes out as the empty string, \<open>_emitTextDelta\<close>
  writes nothing: the translator and what the client has been sent are as they were
  before the sentence.
\<close>

theorem C10_empty_translation_not_emitted:
  assumes "translateSentence sv (w, t) sentence = ([], w', t')"
  shows "emitTextDelta t' [] = t' \<and> sent_events (emitTextDelta t' []) = sent_events t"
  using translateSentence_obs[OF assms] by (simp add: emitTextDelta_def)

text \<open>A translator account that answers with white space: the trimmed answer is empty.\<close>

definition blank_services :: "unit services" where
  "blank_services = demo_services\<lparr>call_api := (\<lambda>w x s t. (Inr (js ''  ''), w))\<rparr>"

theorem C10_empty_translation_witness:
  "translateSentence blank_services ((), demo_translator True) (js ''Hi.'') =
     ([], (), (demo_translator True)\<lparr>stats := (stats (demo_translator True))\<lparr>sentencesTranslated := 1\<rparr>\<rparr>) \<and>
   sent_events (emitTextDelta
     ((demo_translator True)\<lparr>stats := (stats (demo_translator True))\<lparr>sentencesTranslated := 1\<rparr>\<rparr>) []) =
     sent_events (demo_translator True)"
proof -
  have e: "translateSentence blank_services ((), demo_translator True) (js ''Hi.'') =
     ([], (), (demo_translator True)\<lparr>stats := (stats (demo_translator True))\<lparr>sentencesTranslated := 1\<rparr>\<rparr>)"
    by (simp add: translateSentence_def blank_services_def demo_services_def extract_code_def
        match_fence_def match_inline_def fence_def backtick_def trim_def is_ws_def js_def
        translate_def translate_lookup_def translate_uncached_def callTranslationAPI_def
        languageNames_def restore_def demo_translator_def new_ResponseTranslator_def Let_def)
  show ?thesis by (intro conjI e C10_empty_translation_not_emitted[OF e, THEN conjunct2])
qed


section \<open>Request translator (requestTranslator.js)\<close>

subsection \<open>Objects with identity\<close>

text \<open>
  \<open>translateRequest\<close> returns either the object it was given or another one, and what a
  later assignment to the result does to the request depends on which. Here a value is
  therefore a tree whose arrays and objects carry their address in the store; two nodes
  with the same address are the same object. A request body, parsed from JSON, is such a
  tree. New objects take the next free address \<open>n\<close>, which is passed along.
\<close>

datatype hval =
    HUndefined
  | HNull
  | HBool bool
  | HNum jsnum
  | HStr jsstring
  | HArr nat "hval list"
  | HObj nat "(jsstring \<times> hval) list"

fun erase :: "hval \<Rightarrow> jsval" where
  "erase HUndefined = JUndefined"
| "erase HNull = JNull"
| "erase (HBool b) = JBool b"
| "erase (HNum x) = JNum x"
| "erase (HStr s) = JStr s"
| "erase (HArr a xs) = JArr (map erase xs)"
| "erase (HObj a kvs) = JObj (map (\<lambda>kv. (fst kv, erase (snd kv))) kvs)"

fun addrs :: "hval \<Rightarrow> nat set" where
  "addrs (HArr a xs) = insert a (\<Union>x \<in> set xs. addrs x)"
| "addrs (HObj a kvs) = insert a (\<Union>kv \<in> set kvs. addrs (snd kv))"
| "addrs v = {}"

text \<open>
  An assignment through a reference: \<open>modify a f v\<close> is \<open>v\<close> after the object at address
  \<open>a\<close> has been changed by \<open>f\<close>, wherever it stands in \<open>v\<close>.
\<close>

fun modify :: "nat \<Rightarrow> (hval \<Rightarrow> hval) \<Rightarrow> hval \<Rightarrow> hval" where
  "modify a f (HArr b xs) =
     (let v = HArr b (map (modify a f) xs) in if a = b then f v else v)"
| "modify a f (HObj b kvs) =
     (let v = HObj b (map (\<lambda>kv. (fst kv, modify a f (snd kv))) kvs) in if a = b then f v else v)"
| "modify a f v = v"

fun h_truthy :: "hval \<Rightarrow> bool" where
  "h_truthy v = truthy (erase v)"

fun h_get :: "hval \<Rightarrow> jsstring \<Rightarrow> hval" where
  "h_get (HObj a kvs) k = (case map_of kvs k of None \<Rightarrow> HUndefined | Some v \<Rightarrow> v)"
| "h_get v k = HUndefined"

definition h_nullish :: "hval \<Rightarrow> bool" where
  "h_nullish v \<longleftrightarrow> v = HUndefined \<or> v = HNull"

text \<open>\<open>o.k = v\<close> on an object: the property is overwritten in place or added at the end.\<close>

fun props_set :: "jsstring \<Rightarrow> hval \<Rightarrow> (jsstring \<times> hval) list \<Rightarrow> (jsstring \<times> hval) list" where
  "props_set k v [] = [(k, v)]"
| "props_set k v (p # ps) = (if fst p = k then (k, v) # ps else p # props_set k v ps)"

fun h_set :: "hval \<Rightarrow> jsstring \<Rightarrow> hval \<Rightarrow> hval" where
  "h_set (HObj a kvs) k v = HObj a (props_set k v kvs)"
| "h_set x k v = x"

subsection \<open>The deep copy\<close>

text \<open>
  \<open>JSON.parse(JSON.stringify(v))\<close>: every array and object is built anew; a property whose
  value is \<open>undefined\<close> is left out, an array element that is \<open>undefined\<close> becomes \<open>null\<close>, and
  so does a number that is not finite.
\<close>

fun json_clone :: "nat \<Rightarrow> hval \<Rightarrow> hval \<times> nat"
  and json_clone_elems :: "nat \<Rightarrow> hval list \<Rightarrow> hval list \<times> nat"
  and json_clone_props :: "nat \<Rightarrow> (jsstring \<times> hval) list \<Rightarrow> (jsstring \<times> hval) list \<times> nat" where
  "json_clone n HUndefined = (HUndefined, n)"
| "json_clone n HNull = (HNull, n)"
| "json_clone n (HBool b) = (HBool b, n)"
| "json_clone n (HNum x) = (case x of Fin i \<Rightarrow> (HNum x, n) | _ \<Rightarrow> (HNull, n))"
| "json_clone n (HStr s) = (HStr s, n)"
| "json_clone n (HArr a xs) = (let (ys, n') = json_clone_elems (Suc n) xs in (HArr n ys, n'))"
| "json_clone n (HObj a kvs) = (let (kvs', n') = json_clone_props (Suc n) kvs in (HObj n kvs', n'))"
| "json_clone_elems n [] = ([], n)"
| "json_clone_elems n (x # xs) =
     (let (y, n1) = json_clone n x;
          (ys, n2) = json_clone_elems n1 xs
      in ((if y = HUndefined then HNull else y) # ys, n2))"
| "json_clone_props n [] = ([], n)"
| "json_clone_props n (kv # kvs) =
     (let (y, n1) = json_clone n (snd kv);
          (kvs', n2) = json_clone_props n1 kvs
      in (if y = HUndefined then kvs' else (fst kv, y) # kvs', n2))"

subsection \<open>The translator\<close>

text \<open>\<open>languageDetector.containsChinese\<close>: some code unit in U+4E00 to U+9FA5.\<close>

definition containsChinese :: "jsstring \<Rightarrow> bool" where
  "containsChinese s = list_ex (\<lambda>c. 0x4E00 \<le> c \<and> c \<le> 0x9FA5) s"

text \<open>\<open>_translateText\<close> on a string. Its \<open>catch\<close> takes whatever \<open>translate\<close> throws.\<close>

definition translateText :: "'w services \<Rightarrow> 'w \<Rightarrow> jsstring \<Rightarrow> jsstring \<times> 'w" where
  "translateText sv w s =
     (if s = [] \<or> trim s = [] then (s, w)
      else if \<not> containsChinese s then (s, w)
      else (let ex = extract_code s in
            if trim (cleanText ex) = [] then (s, w)
            else (case translate sv w (cleanText ex) (js ''zh'') (js ''en'') of
                    (Inr translatedText, w') \<Rightarrow> (restore translatedText (placeholders ex), w')
                  | (Inl e, w') \<Rightarrow> (s, w'))))"

text \<open>
  \<open>_translateText(block.text)\<close> for a truthy \<open>block.text\<close>: on a value that is not a string
  the guard \<open>!text.trim()\<close> calls what is not a function, before the \<open>try\<close>.
\<close>

definition translateText_value :: "'w services \<Rightarrow> 'w \<Rightarrow> hval \<Rightarrow> (error + hval) \<times> 'w" where
  "translateText_value sv w v =
     (case v of
        HStr s \<Rightarrow> (let (s', w') = translateText sv w s in (Inr (HStr s'), w'))
      | _ \<Rightarrow> (Inl TypeError, w))"

text \<open>
  The loop over the blocks of an array content. \<open>{...block}\<close> is a new object with the
  properties of \<open>block\<close>; a block that is \<open>null\<close> makes \<open>block.type\<close> throw.
\<close>

fun translate_blocks ::
  "'w services \<Rightarrow> 'w \<times> nat \<Rightarrow> hval list \<Rightarrow> (error + hval list) \<times> 'w \<times> nat" where
  "translate_blocks sv (w, n) [] = (Inr [], w, n)"
| "translate_blocks sv (w, n) (block # rest) =
     (if h_nullish block then (Inl TypeError, w, n)
      else if h_get block (js ''type'') = HStr (js ''text'') \<and> h_truthy (h_get block (js ''text''))
      then (case translateText_value sv w (h_get block (js ''text'')) of
              (Inl e, w') \<Rightarrow> (Inl e, w', Suc n)
            | (Inr s, w') \<Rightarrow>
                (let translatedBlock =
                       (case block of HObj a kvs \<Rightarrow> h_set (HObj n kvs) (js ''text'') s | _ \<Rightarrow> block)
                 in case translate_blocks sv (w', Suc n) rest of
                      (Inl e, st) \<Rightarrow> (Inl e, st)
                    | (Inr blocks, st) \<Rightarrow> (Inr (translatedBlock # blocks), st)))
      else (case translate_blocks sv (w, n) rest of
              (Inl e, st) \<Rightarrow> (Inl e, st)
            | (Inr blocks, st) \<Rightarrow> (Inr (block # blocks), st)))"

text \<open>\<open>_translateContent\<close>; \<open>translatedBlocks\<close> is a new array.\<close>

definition translateContent ::
  "'w services \<Rightarrow> 'w \<times> nat \<Rightarrow> hval \<Rightarrow> (error + hval) \<times> 'w \<times> nat" where
  "translateContent sv st content =
     (let (w, n) = st in
      case content of
        HStr s \<Rightarrow> (let (s', w') = translateText sv w s in (Inr (HStr s'), w', n))
      | HArr a blocks \<Rightarrow>
          (case translate_blocks sv (w, Suc n) blocks of
             (Inl e, st') \<Rightarrow> (Inl e, st')
           | (Inr translatedBlocks, st') \<Rightarrow> (Inr (HArr n translatedBlocks), st'))
      | _ \<Rightarrow> (Inr content, w, n))"

text \<open>
  The loop \<open>for (const message of translatedBody.messages)\<close>: a message that is \<open>null\<close>
  makes \<open>message.role\<close> throw; the content of a user message is assigned anew.
\<close>

fun translate_messages ::
  "'w services \<Rightarrow> 'w \<times> nat \<Rightarrow> hval list \<Rightarrow> (error + hval list) \<times> 'w \<times> nat" where
  "translate_messages sv st [] = (Inr [], st)"
| "translate_messages sv st (message # rest) =
     (if h_nullish message then (Inl TypeError, st)
      else if h_get message (js ''role'') = HStr (js ''user'')
      then (case translateContent sv st (h_get message (js ''content'')) of
              (Inl e, st') \<Rightarrow> (Inl e, st')
            | (Inr content, st') \<Rightarrow>
                (case translate_messages sv st' rest of
                   (Inl e, st'') \<Rightarrow> (Inl e, st'')
                 | (Inr ms, st'') \<Rightarrow> (Inr (h_set message (js ''content'') content # ms), st'')))
      else (case translate_messages sv st rest of
              (Inl e, st') \<Rightarrow> (Inl e, st')
            | (Inr ms, st') \<Rightarrow> (Inr (message # ms), st')))"

text \<open>The elements of \<open>body.messages\<close> when it is an array.\<close>

definition messages_of :: "hval \<Rightarrow> hval list option" where
  "messages_of body =
     (if h_nullish body then None
      else (case h_get body (js ''messages'') of HArr a ms \<Rightarrow> Some ms | _ \<Rightarrow> None))"

text \<open>
  The \<open>try\<close> block of \<open>translateRequest\<close>: the deep copy, then the loop, which changes the
  message objects of the copy in place.
\<close>

definition translate_copy ::
  "'w services \<Rightarrow> 'w \<times> nat \<Rightarrow> hval \<Rightarrow> (error + hval) \<times> 'w \<times> nat" where
  "translate_copy sv st requestBody =
     (let (w, n) = st;
          (translatedBody, n1) = json_clone n requestBody
      in case h_get translatedBody (js ''messages'') of
           HArr a ms \<Rightarrow>
             (case translate_messages sv (w, n1) ms of
                (Inl e, st') \<Rightarrow> (Inl e, st')
              | (Inr ms', st') \<Rightarrow> (Inr (h_set translatedBody (js ''messages'') (HArr a ms')), st'))
         | _ \<Rightarrow> (Inl TypeError, w, n1))"

text \<open>
  \<open>translateRequest\<close>. The account is read only; \<open>!account?.enableTranslation\<close> is the
  first guard, \<open>!requestBody?.messages || !Array.isArray(requestBody.messages)\<close> the second,
  and the \<open>catch\<close> returns the request body it was given.
\<close>

definition translateRequest ::
  "'w services \<Rightarrow> 'w \<times> nat \<Rightarrow> hval \<Rightarrow> jsval \<Rightarrow> hval \<times> 'w \<times> nat" where
  "translateRequest sv st requestBody account =
     (if \<not> truthy (opt_get account (js ''enableTranslation'')) then (requestBody, st)
      else if messages_of requestBody = None then (requestBody, st)
      else (case translate_copy sv st requestBody of
              (Inr translatedBody, st') \<Rightarrow> (translatedBody, st')
            | (Inl e, st') \<Rightarrow> (requestBody, st')))"


subsection \<open>The result shares nothing with the request, or is the request\<close>

text \<open>
  A JSON value, as the body parser gives it: no \<open>undefined\<close> and no number that is not
  finite anywhere in it.
\<close>

fun plain :: "hval \<Rightarrow> bool" where
  "plain HUndefined = False"
| "plain (HNum x) = (case x of Fin i \<Rightarrow> True | _ \<Rightarrow> False)"
| "plain (HArr a xs) = list_all plain xs"
| "plain (HObj a kvs) = list_all (\<lambda>kv. plain (snd kv)) kvs"
| "plain v = True"

text \<open>
  Where the \<open>try\<close> block can throw: \<open>message.role\<close> on a message that is \<open>null\<close>,
  \<open>block.type\<close> on a block that is \<open>null\<close>, and \<open>text.trim()\<close> on the truthy \<open>text\<close> of a text
  block that is not a string. A message, or a block, on which none of this happens:
\<close>

definition block_ok :: "jsval \<Rightarrow> bool" where
  "block_ok block \<longleftrightarrow>
     \<not> nullish block \<and>
     (get_prop block (js ''type'') = JStr (js ''text'') \<and> truthy (get_prop block (js ''text'')) \<longrightarrow>
        (case get_prop block (js ''text'') of JStr s \<Rightarrow> True | _ \<Rightarrow> False))"

definition message_ok :: "jsval \<Rightarrow> bool" where
  "message_ok message \<longleftrightarrow>
     \<not> nullish message \<and>
     (get_prop message (js ''role'') = JStr (js ''user'') \<longrightarrow>
        (case get_prop message (js ''content'') of JArr blocks \<Rightarrow> list_all block_ok blocks | _ \<Rightarrow> True))"

lemma json_clone_addrs:
  "json_clone n v = (v', n') \<Longrightarrow> n \<le> n' \<and> addrs v' \<subseteq> {n..<n'}"
  "json_clone_elems n xs = (ys, n') \<Longrightarrow> n \<le> n' \<and> (\<Union>y \<in> set ys. addrs y) \<subseteq> {n..<n'}"
  "json_clone_props n kvs = (kvs', n') \<Longrightarrow> n \<le> n' \<and> (\<Union>kv \<in> set kvs'. addrs (snd kv)) \<subseteq> {n..<n'}"
proof (induction n v and n xs and n kvs arbitrary: v' n' and ys n' and kvs' n'
    rule: json_clone_json_clone_elems_json_clone_props.induct)
  case (4 n x)
  then show ?case by (auto split: jsnum.splits)
next
  case (6 n a xs)
  obtain ys n1 where e: "json_clone_elems (Suc n) xs = (ys, n1)" by (cases "json_clone_elems (Suc n) xs")
  with 6(2) have v: "v' = HArr n ys" "n' = n1" by auto
  from 6(1)[OF e] have "Suc n \<le> n1" "(\<Union>y \<in> set ys. addrs y) \<subseteq> {Suc n..<n1}" by auto
  with v show ?case by auto
next
  case (7 n a kvs)
  obtain ys n1 where e: "json_clone_props (Suc n) kvs = (ys, n1)" by (cases "json_clone_props (Suc n) kvs")
  with 7(2) have v: "v' = HObj n ys" "n' = n1" by auto
  from 7(1)[OF e] have "Suc n \<le> n1" "(\<Union>kv \<in> set ys. addrs (snd kv)) \<subseteq> {Suc n..<n1}" by auto
  with v show ?case by auto
next
  case (9 n x xs)
  obtain y n1 where a: "json_clone n x = (y, n1)" by (cases "json_clone n x")
  obtain zs n2 where b: "json_clone_elems n1 xs = (zs, n2)" by (cases "json_clone_elems n1 xs")
  from 9(3) a b have v: "ys = (if y = HUndefined then HNull else y) # zs" "n' = n2" by auto
  from 9(1)[OF a] have 1: "n \<le> n1" "addrs y \<subseteq> {n..<n1}" by auto
  from 9(2)[OF a[symmetric] refl b] have 2: "n1 \<le> n2" "(\<Union>y \<in> set zs. addrs y) \<subseteq> {n1..<n2}" by auto
  have "addrs (if y = HUndefined then HNull else y) \<subseteq> addrs y" by simp
  with v 1 2 show ?case by fastforce
next
  case (11 n kv kvs)
  obtain y n1 where a: "json_clone n (snd kv) = (y, n1)" by (cases "json_clone n (snd kv)")
  obtain zs n2 where b: "json_clone_props n1 kvs = (zs, n2)" by (cases "json_clone_props n1 kvs")
  from 11(3) a b have v: "kvs' = (if y = HUndefined then zs else (fst kv, y) # zs)" "n' = n2" by auto
  from 11(1)[OF a] have 1: "n \<le> n1" "addrs y \<subseteq> {n..<n1}" by auto
  from 11(2)[OF a[symmetric] refl b] have 2: "n1 \<le> n2" "(\<Union>kv \<in> set zs. addrs (snd kv)) \<subseteq> {n1..<n2}" by auto
  from v 1 2 show ?case by (cases "y = HUndefined") fastforce+
qed auto

lemma erase_undefined: "erase v = JUndefined \<longleftrightarrow> v = HUndefined"
  by (cases v) auto

lemma json_clone_erase:
  "plain v \<Longrightarrow> erase (fst (json_clone n v)) = erase v"
  "list_all plain xs \<Longrightarrow> map erase (fst (json_clone_elems n xs)) = map erase xs"
  "list_all (\<lambda>kv. plain (snd kv)) kvs \<Longrightarrow>
     map (\<lambda>kv. (fst kv, erase (snd kv))) (fst (json_clone_props n kvs)) =
     map (\<lambda>kv. (fst kv, erase (snd kv))) kvs"
proof (induction n v and n xs and n kvs rule: json_clone_json_clone_elems_json_clone_props.induct)
  case (4 n x)
  then show ?case by (auto split: jsnum.splits)
next
  case (6 n a xs)
  then show ?case by (cases "json_clone_elems (Suc n) xs") auto
next
  case (7 n a kvs)
  then show ?case by (cases "json_clone_props (Suc n) kvs") auto
next
  case (9 n x xs)
  obtain y n1 where a: "json_clone n x = (y, n1)" by (cases "json_clone n x")
  obtain zs n2 where b: "json_clone_elems n1 xs = (zs, n2)" by (cases "json_clone_elems n1 xs")
  from 9(3) have p: "plain x" "list_all plain xs" by auto
  from 9(1)[OF p(1)] a have 1: "erase y = erase x" by simp
  from 9(2)[OF a[symmetric] refl p(2)] b have 2: "map erase zs = map erase xs" by simp
  from p(1) have "x \<noteq> HUndefined" by auto
  with 1 have "y \<noteq> HUndefined" using erase_undefined by metis
  with a b 1 2 show ?case by simp
next
  case (11 n kv kvs)
  obtain y n1 where a: "json_clone n (snd kv) = (y, n1)" by (cases "json_clone n (snd kv)")
  obtain zs n2 where b: "json_clone_props n1 kvs = (zs, n2)" by (cases "json_clone_props n1 kvs")
  from 11(3) have p: "plain (snd kv)" "list_all (\<lambda>kv. plain (snd kv)) kvs" by auto
  from 11(1)[OF p(1)] a have 1: "erase y = erase (snd kv)" by simp
  from 11(2)[OF a[symmetric] refl p(2)] b
  have 2: "map (\<lambda>kv. (fst kv, erase (snd kv))) zs = map (\<lambda>kv. (fst kv, erase (snd kv))) kvs" by simp
  from p(1) have "snd kv \<noteq> HUndefined" by auto
  with 1 have "y \<noteq> HUndefined" using erase_undefined by metis
  with a b 1 2 show ?case by simp
qed auto

lemma addrs_props_set:
  "(\<Union>kv \<in> set (props_set k v kvs). addrs (snd kv)) \<subseteq> (\<Union>kv \<in> set kvs. addrs (snd kv)) \<union> addrs v"
  by (induction kvs) auto

lemma addrs_h_set: "addrs (h_set x k v) \<subseteq> addrs x \<union> addrs v"
proof (cases x)
  case (HObj a kvs)
  then show ?thesis using addrs_props_set[of k v kvs] by auto
qed auto

lemma addrs_h_get: "addrs (h_get x k) \<subseteq> addrs x"
proof (cases x)
  case (HObj a kvs)
  show ?thesis
  proof (cases "map_of kvs k")
    case None
    with HObj show ?thesis by simp
  next
    case (Some v)
    then have "(k, v) \<in> set kvs" by (rule map_of_SomeD)
    then have "addrs v \<subseteq> (\<Union>kv \<in> set kvs. addrs (snd kv))" by force
    with HObj Some show ?thesis by auto
  qed
qed auto

lemma translate_blocks_addrs:
  "translate_blocks sv (w, n) bs = (r, w', n') \<Longrightarrow>
   n \<le> n' \<and> (\<forall>bs'. r = Inr bs' \<longrightarrow> (\<Union>b \<in> set bs'. addrs b) \<subseteq> (\<Union>b \<in> set bs. addrs b) \<union> {n..<n'})"
proof (induction bs arbitrary: w n r w' n')
  case Nil
  then show ?case by auto
next
  case (Cons block rest)
  show ?case
  proof (cases "h_nullish block")
    case True
    with Cons.prems show ?thesis by auto
  next
    case False
    show ?thesis
    proof (cases "h_get block (js ''type'') = HStr (js ''text'') \<and> h_truthy (h_get block (js ''text''))")
      case True
      obtain tv w1 where tv: "translateText_value sv w (h_get block (js ''text'')) = (tv, w1)"
        by (cases "translateText_value sv w (h_get block (js ''text''))")
      show ?thesis
      proof (cases tv)
        case (Inl e)
        with Cons.prems False True tv show ?thesis by auto
      next
        case (Inr s)
        then have s: "addrs s = {}" using tv
          by (auto simp: translateText_value_def split: hval.splits prod.splits)
        define tb where "tb = (case block of HObj a kvs \<Rightarrow> h_set (HObj n kvs) (js ''text'') s | _ \<Rightarrow> block)"
        have tba: "addrs tb \<subseteq> addrs block \<union> {n}"
        proof (cases block)
          case (HObj a kvs)
          then have "tb = h_set (HObj n kvs) (js ''text'') s" by (simp add: tb_def)
          with addrs_h_set[of "HObj n kvs" "js ''text''" s] s HObj show ?thesis by auto
        qed (auto simp: tb_def)
        obtain r2 w2 n2 where rr: "translate_blocks sv (w1, Suc n) rest = (r2, w2, n2)"
          by (cases "translate_blocks sv (w1, Suc n) rest")
        from Cons.IH[OF rr] have ih: "Suc n \<le> n2"
          "\<forall>bs'. r2 = Inr bs' \<longrightarrow> (\<Union>b \<in> set bs'. addrs b) \<subseteq> (\<Union>b \<in> set rest. addrs b) \<union> {Suc n..<n2}"
          by auto
        from Cons.prems False True tv Inr rr
        have res: "(case r2 of Inl e \<Rightarrow> (Inl e, w2, n2) | Inr blocks \<Rightarrow> (Inr (tb # blocks), w2, n2)) = (r, w', n')"
          unfolding tb_def by (simp add: Let_def)
        show ?thesis
        proof (cases r2)
          case (Inl e)
          with res ih show ?thesis by auto
        next
          case (Inr blocks)
          with res have e: "r = Inr (tb # blocks)" "n' = n2" by auto
          from ih Inr have "(\<Union>b \<in> set blocks. addrs b) \<subseteq> (\<Union>b \<in> set rest. addrs b) \<union> {Suc n..<n2}" by simp
          with tba ih(1) e show ?thesis by fastforce
        qed
      qed
    next
      case F: False
      obtain r2 w2 n2 where rr: "translate_blocks sv (w, n) rest = (r2, w2, n2)"
        by (cases "translate_blocks sv (w, n) rest")
      from Cons.IH[OF rr] have ih: "n \<le> n2"
        "\<forall>bs'. r2 = Inr bs' \<longrightarrow> (\<Union>b \<in> set bs'. addrs b) \<subseteq> (\<Union>b \<in> set rest. addrs b) \<union> {n..<n2}"
        by auto
      from Cons.prems False F rr
      have res: "(case r2 of Inl e \<Rightarrow> (Inl e, w2, n2) | Inr blocks \<Rightarrow> (Inr (block # blocks), w2, n2)) = (r, w', n')"
        by auto
      show ?thesis
      proof (cases r2)
        case (Inl e)
        with res ih show ?thesis by auto
      next
        case (Inr blocks)
        with res have e: "r = Inr (block # blocks)" "n' = n2" by auto
        from ih Inr have "(\<Union>b \<in> set blocks. addrs b) \<subseteq> (\<Union>b \<in> set rest. addrs b) \<union> {n..<n2}" by simp
        with ih(1) e show ?thesis by fastforce
      qed
    qed
  qed
qed

lemma translateContent_addrs:
  assumes "translateContent sv (w, n) c = (r, w', n')"
  shows "n \<le> n' \<and> (\<forall>c'. r = Inr c' \<longrightarrow> addrs c' \<subseteq> addrs c \<union> {n..<n'})"
proof (cases c)
  case (HStr s)
  with assms show ?thesis by (auto simp: translateContent_def split: prod.splits)
next
  case (HArr a blocks)
  obtain r2 w2 n2 where rr: "translate_blocks sv (w, Suc n) blocks = (r2, w2, n2)"
    by (cases "translate_blocks sv (w, Suc n) blocks")
  from translate_blocks_addrs[OF rr] have ih: "Suc n \<le> n2"
    "\<forall>bs'. r2 = Inr bs' \<longrightarrow> (\<Union>b \<in> set bs'. addrs b) \<subseteq> (\<Union>b \<in> set blocks. addrs b) \<union> {Suc n..<n2}"
    by auto
  show ?thesis
  proof (cases r2)
    case (Inl e)
    with assms HArr rr ih show ?thesis by (auto simp: translateContent_def)
  next
    case (Inr bs')
    with assms HArr rr have e: "r = Inr (HArr n bs')" "n' = n2" by (auto simp: translateContent_def)
    from ih Inr have "(\<Union>b \<in> set bs'. addrs b) \<subseteq> (\<Union>b \<in> set blocks. addrs b) \<union> {Suc n..<n2}" by simp
    with e ih(1) HArr show ?thesis by fastforce
  qed
qed (use assms in \<open>auto simp: translateContent_def\<close>)

text \<open>A message of the copy is kept as it is unless its role is \<open>user\<close>.\<close>

definition kept :: "hval \<Rightarrow> hval \<Rightarrow> bool" where
  "kept m m' \<longleftrightarrow> h_get m (js ''role'') = HStr (js ''user'') \<or> m' = m"

lemma translate_messages_addrs:
  "translate_messages sv (w, n) ms = (r, w', n') \<Longrightarrow>
   n \<le> n' \<and> (\<forall>ms'. r = Inr ms' \<longrightarrow>
      (\<Union>m \<in> set ms'. addrs m) \<subseteq> (\<Union>m \<in> set ms. addrs m) \<union> {n..<n'} \<and> list_all2 kept ms ms')"
proof (induction ms arbitrary: w n r w' n')
  case Nil
  then show ?case by auto
next
  case (Cons m rest)
  show ?case
  proof (cases "h_nullish m")
    case True
    with Cons.prems show ?thesis by auto
  next
    case False
    show ?thesis
    proof (cases "h_get m (js ''role'') = HStr (js ''user'')")
      case True
      obtain rc w1 n1 where tc: "translateContent sv (w, n) (h_get m (js ''content'')) = (rc, w1, n1)"
        by (cases "translateContent sv (w, n) (h_get m (js ''content''))")
      from translateContent_addrs[OF tc] have c: "n \<le> n1"
        "\<forall>c'. rc = Inr c' \<longrightarrow> addrs c' \<subseteq> addrs (h_get m (js ''content'')) \<union> {n..<n1}" by auto
      show ?thesis
      proof (cases rc)
        case (Inl e)
        with Cons.prems False True tc c show ?thesis by auto
      next
        case (Inr content)
        obtain r2 w2 n2 where rr: "translate_messages sv (w1, n1) rest = (r2, w2, n2)"
          by (cases "translate_messages sv (w1, n1) rest")
        from Cons.IH[OF rr] have ih: "n1 \<le> n2"
          "\<forall>ms'. r2 = Inr ms' \<longrightarrow> (\<Union>m \<in> set ms'. addrs m) \<subseteq> (\<Union>m \<in> set rest. addrs m) \<union> {n1..<n2}
              \<and> list_all2 kept rest ms'" by auto
        show ?thesis
        proof (cases r2)
          case (Inl e)
          with Cons.prems False True tc Inr rr c ih show ?thesis by auto
        next
          case r2: (Inr ms2)
          with Cons.prems False True tc Inr rr
          have e: "r = Inr (h_set m (js ''content'') content # ms2)" "n' = n2" by auto
          have "addrs content \<subseteq> addrs m \<union> {n..<n1}"
            using c(2) Inr addrs_h_get[of m "js ''content''"] by auto
          with addrs_h_set[of m "js ''content''" content]
          have "addrs (h_set m (js ''content'') content) \<subseteq> addrs m \<union> {n..<n1}" by auto
          moreover from ih r2 have "(\<Union>m \<in> set ms2. addrs m) \<subseteq> (\<Union>m \<in> set rest. addrs m) \<union> {n1..<n2}"
            "list_all2 kept rest ms2" by auto
          ultimately show ?thesis using e c(1) ih(1) True by (fastforce simp: kept_def)
        qed
      qed
    next
      case F: False
      obtain r2 w2 n2 where rr: "translate_messages sv (w, n) rest = (r2, w2, n2)"
        by (cases "translate_messages sv (w, n) rest")
      from Cons.IH[OF rr] have ih: "n \<le> n2"
        "\<forall>ms'. r2 = Inr ms' \<longrightarrow> (\<Union>m \<in> set ms'. addrs m) \<subseteq> (\<Union>m \<in> set rest. addrs m) \<union> {n..<n2}
            \<and> list_all2 kept rest ms'" by auto
      show ?thesis
      proof (cases r2)
        case (Inl e)
        with Cons.prems False F rr ih show ?thesis by auto
      next
        case r2: (Inr ms2)
        with Cons.prems False F rr have e: "r = Inr (m # ms2)" "n' = n2" by auto
        from ih r2 have "(\<Union>m \<in> set ms2. addrs m) \<subseteq> (\<Union>m \<in> set rest. addrs m) \<union> {n..<n2}"
          "list_all2 kept rest ms2" by auto
        then show ?thesis using e ih(1) by (fastforce simp: kept_def)
      qed
    qed
  qed
qed

lemma modify_fresh: "a \<notin> addrs v \<Longrightarrow> modify a f v = v"
proof (induction v)
  case (HArr b xs)
  then have "map (modify a f) xs = xs" by (intro map_idI) auto
  with HArr show ?case by simp
next
  case (HObj b kvs)
  have "map (\<lambda>kv. (fst kv, modify a f (snd kv))) kvs = kvs"
  proof (intro map_idI)
    fix kv assume kv: "kv \<in> set kvs"
    then have "a \<notin> addrs (snd kv)" using HObj.prems by auto
    moreover have "snd kv \<in> Basic_BNFs.snds kv" by (cases kv) simp
    ultimately have "modify a f (snd kv) = snd kv" using HObj.IH kv by blast
    then show "(fst kv, modify a f (snd kv)) = kv" by simp
  qed
  with HObj show ?case by simp
qed auto

lemma map_of_erase:
  "map_of (map (\<lambda>kv. (fst kv, erase (snd kv))) kvs) k = map_option erase (map_of kvs k)"
  by (induction kvs) auto

lemma erase_h_get: "erase (h_get v k) = get_prop (erase v) k"
  by (cases v) (auto simp: map_of_erase split: option.splits)

lemma erase_JArr: "erase x = JArr ys \<Longrightarrow> \<exists>a xs. x = HArr a xs \<and> map erase xs = ys"
  by (cases x) auto

lemma erase_JObj: "erase x = JObj ys \<Longrightarrow> \<exists>a kvs. x = HObj a kvs"
  by (cases x) auto

lemma erase_JStr: "erase x = JStr s \<longleftrightarrow> x = HStr s"
  by (cases x) auto

lemma map_of_props_set: "map_of (props_set k v kvs) k = Some v"
  by (induction kvs) auto

lemma messages_of_Some:
  "messages_of body = Some ms \<Longrightarrow> \<exists>b kvs a. body = HObj b kvs \<and> h_get body (js ''messages'') = HArr a ms"
  by (cases body) (auto simp: messages_of_def split: if_splits hval.splits option.splits)

text \<open>
  The messages of two envelopes agree, one by one, wherever the role is not \<open>user\<close>;
  addresses apart, since the objects of a copy are new.
\<close>

definition same_non_user :: "hval \<Rightarrow> hval \<Rightarrow> bool" where
  "same_non_user body result =
     (case (messages_of body, messages_of result) of
        (Some ms, Some ms') \<Rightarrow>
          list_all2 (\<lambda>m m'. h_get m (js ''role'') = HStr (js ''user'') \<or> erase m' = erase m) ms ms'
      | (None, None) \<Rightarrow> True
      | _ \<Rightarrow> False)"

lemma same_non_user_refl: "same_non_user body body"
  by (auto simp: same_non_user_def list_all2_same split: option.splits)


lemma translate_copy_unfold:
  assumes r: "translate_copy sv (w, n) body = (Inr tb, w', n')"
  shows "\<exists>cb n1 a cms ms'. json_clone n body = (cb, n1) \<and> h_get cb (js ''messages'') = HArr a cms \<and>
     translate_messages sv (w, n1) cms = (Inr ms', w', n') \<and> tb = h_set cb (js ''messages'') (HArr a ms')"
proof -
  obtain cb n1 where c: "json_clone n body = (cb, n1)" by (cases "json_clone n body")
  show ?thesis
  proof (cases "h_get cb (js ''messages'')")
    case (HArr a cms)
    obtain r2 w2 n2 where tm: "translate_messages sv (w, n1) cms = (r2, w2, n2)"
      by (cases "translate_messages sv (w, n1) cms")
    show ?thesis
    proof (cases r2)
      case (Inl e)
      with r c HArr tm show ?thesis by (simp add: translate_copy_def)
    next
      case (Inr ms')
      with r c HArr tm show ?thesis by (simp add: translate_copy_def)
    qed
  qed (use r c in \<open>simp_all add: translate_copy_def\<close>)
qed

lemma translate_copy_fresh:
  assumes r: "translate_copy sv (w, n) body = (Inr tb, w', n')"
  shows "addrs tb \<subseteq> {n..<n'}"
proof -
  from translate_copy_unfold[OF r] obtain cb n1 a cms ms' where
    c: "json_clone n body = (cb, n1)" and g: "h_get cb (js ''messages'') = HArr a cms" and
    tm: "translate_messages sv (w, n1) cms = (Inr ms', w', n')" and
    tb: "tb = h_set cb (js ''messages'') (HArr a ms')" by blast
  from json_clone_addrs(1)[OF c] have ca: "n \<le> n1" "addrs cb \<subseteq> {n..<n1}" by auto
  from translate_messages_addrs[OF tm] have m: "n1 \<le> n'"
    "(\<Union>m \<in> set ms'. addrs m) \<subseteq> (\<Union>m \<in> set cms. addrs m) \<union> {n1..<n'}"
    by auto
  have ga: "addrs (HArr a cms) \<subseteq> addrs cb" using addrs_h_get[of cb "js ''messages''"] g by simp
  then have a: "a \<in> addrs cb" and cm: "(\<Union>m \<in> set cms. addrs m) \<subseteq> addrs cb" by auto
  have s1: "addrs (HArr a ms') \<subseteq> addrs cb \<union> {n1..<n'}"
  proof
    fix x assume "x \<in> addrs (HArr a ms')"
    then have "x = a \<or> x \<in> (\<Union>m \<in> set ms'. addrs m)" by simp
    then show "x \<in> addrs cb \<union> {n1..<n'}" using a m(2) cm by blast
  qed
  have s2: "addrs tb \<subseteq> addrs cb \<union> addrs (HArr a ms')"
    unfolding tb by (rule addrs_h_set)
  have s3: "addrs cb \<union> {n1..<n'} \<subseteq> {n..<n'}"
  proof
    fix x assume "x \<in> addrs cb \<union> {n1..<n'}"
    then have "x \<in> {n..<n1} \<or> x \<in> {n1..<n'}" using ca(2) by blast
    then show "x \<in> {n..<n'}" using ca(1) m(1) by auto
  qed
  show ?thesis using s1 s2 s3 by blast
qed

lemma translate_copy_new:
  assumes r: "translate_copy sv (w, n) (HObj b kvs) = (Inr tb, w', n')"
  shows "n \<in> addrs tb"
proof -
  from translate_copy_unfold[OF r] obtain cb n1 a cms ms' where
    c: "json_clone n (HObj b kvs) = (cb, n1)" and
    tb: "tb = h_set cb (js ''messages'') (HArr a ms')" by blast
  from c obtain kvs' where "cb = HObj n kvs'" by (auto split: prod.splits)
  with tb show ?thesis by simp
qed

lemma role_erase:
  assumes "erase m' = erase m"
  shows "h_get m' (js ''role'') = HStr (js ''user'') \<longleftrightarrow> h_get m (js ''role'') = HStr (js ''user'')"
proof -
  have "erase (h_get m' (js ''role'')) = erase (h_get m (js ''role''))"
    by (simp add: erase_h_get assms)
  then show ?thesis using erase_JStr[of "h_get m' (js ''role'')" "js ''user''"]
      erase_JStr[of "h_get m (js ''role'')" "js ''user''"] by simp
qed

lemma translate_copy_same_non_user:
  assumes r: "translate_copy sv (w, n) body = (Inr tb, w', n')"
    and p: "plain body" and mo: "messages_of body = Some ms"
  shows "same_non_user body tb"
proof -
  from translate_copy_unfold[OF r] obtain cb n1 a cms ms' where
    c: "json_clone n body = (cb, n1)" and g: "h_get cb (js ''messages'') = HArr a cms" and
    tm: "translate_messages sv (w, n1) cms = (Inr ms', w', n')" and
    tb: "tb = h_set cb (js ''messages'') (HArr a ms')" by blast
  from translate_messages_addrs[OF tm] have k: "list_all2 kept cms ms'" by simp
  from messages_of_Some[OF mo] obtain b kvs am where
    body: "body = HObj b kvs" and hm: "h_get body (js ''messages'') = HArr am ms" by blast
  from json_clone_erase(1)[OF p, of n] c have ec: "erase cb = erase body" by simp
  have "erase (h_get cb (js ''messages'')) = erase (h_get body (js ''messages''))"
    by (simp add: erase_h_get ec)
  with g hm have em: "map erase cms = map erase ms" by simp
  from ec body obtain cbb ckvs where cb: "cb = HObj cbb ckvs" using erase_JObj[of cb] by auto
  have mt: "messages_of tb = Some ms'"
    unfolding tb cb by (simp add: messages_of_def h_nullish_def map_of_props_set)
  have l: "length ms = length cms" using em by (rule map_eq_imp_length_eq[symmetric])
  have l2: "length cms = length ms'" using k by (rule list_all2_lengthD)
  have "list_all2 (\<lambda>m m'. h_get m (js ''role'') = HStr (js ''user'') \<or> erase m' = erase m) ms ms'"
  proof (rule list_all2_all_nthI)
    show "length ms = length ms'" using l l2 by simp
  next
    fix i assume i: "i < length ms"
    with l have ic: "i < length cms" by simp
    have "erase (cms ! i) = map erase cms ! i" using ic by simp
    also have "\<dots> = map erase ms ! i" by (simp only: em)
    also have "\<dots> = erase (ms ! i)" using i by simp
    finally have e: "erase (cms ! i) = erase (ms ! i)" .
    from k ic have "kept (cms ! i) (ms' ! i)" by (rule list_all2_nthD)
    then have "h_get (cms ! i) (js ''role'') = HStr (js ''user'') \<or> ms' ! i = cms ! i"
      by (simp add: kept_def)
    then show "h_get (ms ! i) (js ''role'') = HStr (js ''user'') \<or> erase (ms' ! i) = erase (ms ! i)"
      using role_erase[OF e] e by auto
  qed
  with mo mt show ?thesis by (simp add: same_non_user_def)
qed

lemma translateRequest_cases:
  "fst (translateRequest sv (w, n) body account) = body \<or>
   (truthy (opt_get account (js ''enableTranslation'')) \<and>
    (\<exists>ms w' n'. messages_of body = Some ms \<and>
       translate_copy sv (w, n) body = (Inr (fst (translateRequest sv (w, n) body account)), w', n')))"
proof (cases "truthy (opt_get account (js ''enableTranslation'')) \<and> messages_of body \<noteq> None")
  case False
  then show ?thesis by (auto simp: translateRequest_def)
next
  case True
  obtain r w' n' where c: "translate_copy sv (w, n) body = (r, w', n')"
    by (cases "translate_copy sv (w, n) body")
  show ?thesis
  proof (cases r)
    case (Inl e)
    with True c show ?thesis by (auto simp: translateRequest_def)
  next
    case (Inr tb)
    with True c have "fst (translateRequest sv (w, n) body account) = tb"
      by (auto simp: translateRequest_def)
    with True c Inr show ?thesis by auto
  qed
qed

lemma h_nullish_erase: "h_nullish v \<longleftrightarrow> nullish (erase v)"
  by (cases v) (simp_all add: h_nullish_def nullish_def)

lemma h_get_str_erase: "h_get v k = HStr s \<longleftrightarrow> get_prop (erase v) k = JStr s"
  using erase_JStr[of "h_get v k" s] by (simp add: erase_h_get)

lemma translate_blocks_ok:
  "list_all (\<lambda>b. block_ok (erase b)) blocks \<Longrightarrow> \<exists>bs st. translate_blocks sv (w, n) blocks = (Inr bs, st)"
proof (induction blocks arbitrary: w n)
  case Nil
  then show ?case by simp
next
  case (Cons block rest)
  from Cons.prems have ok: "block_ok (erase block)" and rs: "list_all (\<lambda>b. block_ok (erase b)) rest"
    by simp_all
  from ok have nn: "\<not> h_nullish block" by (simp add: block_ok_def h_nullish_erase)
  show ?case
  proof (cases "h_get block (js ''type'') = HStr (js ''text'') \<and> h_truthy (h_get block (js ''text''))")
    case True
    with ok have "case get_prop (erase block) (js ''text'') of JStr s \<Rightarrow> True | _ \<Rightarrow> False"
      by (simp add: block_ok_def h_get_str_erase erase_h_get)
    then obtain s where "get_prop (erase block) (js ''text'') = JStr s"
      by (cases "get_prop (erase block) (js ''text'')") simp_all
    then have s: "h_get block (js ''text'') = HStr s" by (simp add: h_get_str_erase)
    obtain s' w' where t: "translateText sv w s = (s', w')" by (cases "translateText sv w s")
    from Cons.IH[OF rs, of w' "Suc n"] obtain bs st where
      r: "translate_blocks sv (w', Suc n) rest = (Inr bs, st)" by blast
    show ?thesis using True nn s t r by (simp add: translateText_value_def)
  next
    case False
    from Cons.IH[OF rs, of w n] obtain bs st where
      r: "translate_blocks sv (w, n) rest = (Inr bs, st)" by blast
    show ?thesis using False nn r by auto
  qed
qed

lemma translateContent_ok:
  assumes "case erase content of JArr blocks \<Rightarrow> list_all block_ok blocks | _ \<Rightarrow> True"
  shows "\<exists>c st'. translateContent sv st content = (Inr c, st')"
proof -
  obtain w n where st: "st = (w, n)" by (cases st)
  show ?thesis
  proof (cases content)
    case (HArr a blocks)
    with assms have "list_all (\<lambda>b. block_ok (erase b)) blocks" by (simp add: list_all_iff)
    from translate_blocks_ok[OF this, of sv w "Suc n"] obtain bs st' where
      "translate_blocks sv (w, Suc n) blocks = (Inr bs, st')" by blast
    with HArr st show ?thesis by (simp add: translateContent_def)
  next
    case (HStr s)
    then show ?thesis using st by (simp add: translateContent_def split: prod.splits)
  qed (use st in \<open>simp_all add: translateContent_def\<close>)
qed

lemma translate_messages_ok:
  "list_all (\<lambda>m. message_ok (erase m)) ms \<Longrightarrow> \<exists>ms' st'. translate_messages sv st ms = (Inr ms', st')"
proof (induction ms arbitrary: st)
  case Nil
  then show ?case by simp
next
  case (Cons message rest)
  from Cons.prems have ok: "message_ok (erase message)" and rs: "list_all (\<lambda>m. message_ok (erase m)) rest"
    by simp_all
  from ok have nn: "\<not> h_nullish message" by (simp add: message_ok_def h_nullish_erase)
  show ?case
  proof (cases "h_get message (js ''role'') = HStr (js ''user'')")
    case True
    with ok have "case erase (h_get message (js ''content'')) of JArr blocks \<Rightarrow> list_all block_ok blocks | _ \<Rightarrow> True"
      by (simp add: message_ok_def h_get_str_erase erase_h_get)
    from translateContent_ok[OF this, of sv st] obtain c st1 where
      c: "translateContent sv st (h_get message (js ''content'')) = (Inr c, st1)" by blast
    from Cons.IH[OF rs, of st1] obtain ms' st' where
      r: "translate_messages sv st1 rest = (Inr ms', st')" by blast
    show ?thesis using True nn c r by simp
  next
    case False
    from Cons.IH[OF rs, of st] obtain ms' st' where
      r: "translate_messages sv st rest = (Inr ms', st')" by blast
    show ?thesis using False nn r by simp
  qed
qed

lemma translate_copy_ok:
  assumes p: "plain body" and mo: "messages_of body = Some ms"
    and ok: "list_all (\<lambda>m. message_ok (erase m)) ms"
  shows "\<exists>tb w' n'. translate_copy sv (w, n) body = (Inr tb, w', n')"
proof -
  obtain cb n1 where c: "json_clone n body = (cb, n1)" by (cases "json_clone n body")
  from messages_of_Some[OF mo] obtain b kvs am where
    body: "body = HObj b kvs" and hm: "h_get body (js ''messages'') = HArr am ms" by blast
  from json_clone_erase(1)[OF p, of n] c have ec: "erase cb = erase body" by simp
  have "erase (h_get cb (js ''messages'')) = erase (h_get body (js ''messages''))"
    by (simp add: erase_h_get ec)
  with hm have "erase (h_get cb (js ''messages'')) = JArr (map erase ms)" by simp
  from erase_JArr[OF this] obtain a cms where
    g: "h_get cb (js ''messages'') = HArr a cms" and em: "map erase cms = map erase ms" by blast
  have "list_all (\<lambda>m. message_ok (erase m)) cms"
  proof -
    have "list_all message_ok (map erase ms)" using ok by (simp add: list_all_iff)
    then have "list_all message_ok (map erase cms)" by (simp only: em)
    then show ?thesis by (simp add: list_all_iff)
  qed
  from translate_messages_ok[OF this, of sv "(w, n1)"] obtain ms' st' where
    tm: "translate_messages sv (w, n1) cms = (Inr ms', st')" by blast
  obtain w' n' where "st' = (w', n')" by (cases st')
  with c g tm show ?thesis by (simp add: translate_copy_def)
qed

lemma translateRequest_copy:
  assumes en: "truthy (opt_get account (js ''enableTranslation''))"
    and p: "plain body" and mo: "messages_of body = Some ms"
    and ok: "list_all (\<lambda>m. message_ok (erase m)) ms"
  shows "\<exists>tb w' n'. translateRequest sv (w, n) body account = (tb, w', n') \<and>
     translate_copy sv (w, n) body = (Inr tb, w', n') \<and> n \<in> addrs tb \<and> addrs tb \<subseteq> {n..<n'}"
proof -
  from translate_copy_ok[OF p mo ok, of sv w n] obtain tb w' n' where
    c: "translate_copy sv (w, n) body = (Inr tb, w', n')" by blast
  from messages_of_Some[OF mo] obtain b kvs where body: "body = HObj b kvs" by blast
  have "n \<in> addrs tb" using c unfolding body by (rule translate_copy_new)
  moreover have "addrs tb \<subseteq> {n..<n'}" using c by (rule translate_copy_fresh)
  moreover have "translateRequest sv (w, n) body account = (tb, w', n')"
    using en mo c by (simp add: translateRequest_def)
  ultimately show ?thesis using c by blast
qed

lemma translate_blocks_throws:
  "\<not> list_all (\<lambda>b. block_ok (erase b)) blocks \<Longrightarrow> \<exists>e st. translate_blocks sv (w, n) blocks = (Inl e, st)"
proof (induction blocks arbitrary: w n)
  case Nil
  then show ?case by simp
next
  case (Cons block rest)
  show ?case
  proof (cases "h_nullish block")
    case True
    then show ?thesis by simp
  next
    case nn: False
    show ?thesis
    proof (cases "h_get block (js ''type'') = HStr (js ''text'') \<and> h_truthy (h_get block (js ''text''))")
      case True
      show ?thesis
      proof (cases "h_get block (js ''text'')")
        case (HStr s)
        then have "get_prop (erase block) (js ''text'') = JStr s" by (simp add: h_get_str_erase)
        with nn have "block_ok (erase block)" by (simp add: block_ok_def h_nullish_erase)
        with Cons.prems have "\<not> list_all (\<lambda>b. block_ok (erase b)) rest" by simp
        obtain s' w' where t: "translateText sv w s = (s', w')" by (cases "translateText sv w s")
        from Cons.IH[OF \<open>\<not> list_all (\<lambda>b. block_ok (erase b)) rest\<close>, of w' "Suc n"] obtain e st where
          "translate_blocks sv (w', Suc n) rest = (Inl e, st)" by blast
        with True nn HStr t show ?thesis by (simp add: translateText_value_def)
      qed (use True nn in \<open>simp_all add: translateText_value_def\<close>)
    next
      case False
      then have "\<not> (get_prop (erase block) (js ''type'') = JStr (js ''text'') \<and>
          truthy (get_prop (erase block) (js ''text'')))"
        by (simp add: h_get_str_erase erase_h_get)
      with nn have "block_ok (erase block)" by (auto simp: block_ok_def h_nullish_erase)
      with Cons.prems have "\<not> list_all (\<lambda>b. block_ok (erase b)) rest" by simp
      from Cons.IH[OF this, of w n] obtain e st where
        "translate_blocks sv (w, n) rest = (Inl e, st)" by blast
      with False nn show ?thesis by auto
    qed
  qed
qed

lemma translateContent_throws:
  assumes "\<not> (case erase content of JArr blocks \<Rightarrow> list_all block_ok blocks | _ \<Rightarrow> True)"
  shows "\<exists>e st'. translateContent sv st content = (Inl e, st')"
proof -
  obtain w n where st: "st = (w, n)" by (cases st)
  from assms obtain a blocks where c: "content = HArr a blocks"
    by (cases content) simp_all
  with assms have "\<not> list_all (\<lambda>b. block_ok (erase b)) blocks" by (simp add: list_all_iff)
  from translate_blocks_throws[OF this, of sv w "Suc n"] obtain e st' where
    "translate_blocks sv (w, Suc n) blocks = (Inl e, st')" by blast
  with c st show ?thesis by (simp add: translateContent_def)
qed

lemma translate_messages_throws:
  "\<not> list_all (\<lambda>m. message_ok (erase m)) ms \<Longrightarrow> \<exists>e st'. translate_messages sv st ms = (Inl e, st')"
proof (induction ms arbitrary: st)
  case Nil
  then show ?case by simp
next
  case (Cons message rest)
  show ?case
  proof (cases "h_nullish message")
    case True
    then show ?thesis by simp
  next
    case nn: False
    show ?thesis
    proof (cases "h_get message (js ''role'') = HStr (js ''user'')")
      case True
      show ?thesis
      proof (cases "case erase (h_get message (js ''content'')) of JArr blocks \<Rightarrow> list_all block_ok blocks | _ \<Rightarrow> True")
        case ok: True
        with nn True have "message_ok (erase message)"
          by (simp add: message_ok_def h_nullish_erase h_get_str_erase erase_h_get)
        with Cons.prems have r: "\<not> list_all (\<lambda>m. message_ok (erase m)) rest" by simp
        from translateContent_ok[OF ok, of sv st] obtain c st1 where
          c: "translateContent sv st (h_get message (js ''content'')) = (Inr c, st1)" by blast
        from Cons.IH[OF r, of st1] obtain e st' where
          "translate_messages sv st1 rest = (Inl e, st')" by blast
        with True nn c show ?thesis by simp
      next
        case False
        from translateContent_throws[OF False, of sv st] obtain e st' where
          "translateContent sv st (h_get message (js ''content'')) = (Inl e, st')" by blast
        with True nn show ?thesis by simp
      qed
    next
      case False
      with nn have "message_ok (erase message)"
        by (simp add: message_ok_def h_nullish_erase h_get_str_erase)
      with Cons.prems have r: "\<not> list_all (\<lambda>m. message_ok (erase m)) rest" by simp
      from Cons.IH[OF r, of st] obtain e st' where
        "translate_messages sv st rest = (Inl e, st')" by blast
      with False nn show ?thesis by simp
    qed
  qed
qed

lemma translate_copy_throws:
  assumes p: "plain body" and mo: "messages_of body = Some ms"
    and ok: "\<not> list_all (\<lambda>m. message_ok (erase m)) ms"
  shows "\<exists>e st'. translate_copy sv (w, n) body = (Inl e, st')"
proof -
  obtain cb n1 where c: "json_clone n body = (cb, n1)" by (cases "json_clone n body")
  from messages_of_Some[OF mo] obtain b kvs am where
    body: "body = HObj b kvs" and hm: "h_get body (js ''messages'') = HArr am ms" by blast
  from json_clone_erase(1)[OF p, of n] c have ec: "erase cb = erase body" by simp
  have "erase (h_get cb (js ''messages'')) = erase (h_get body (js ''messages''))"
    by (simp add: erase_h_get ec)
  with hm have "erase (h_get cb (js ''messages'')) = JArr (map erase ms)" by simp
  from erase_JArr[OF this] obtain a cms where
    g: "h_get cb (js ''messages'') = HArr a cms" and em: "map erase cms = map erase ms" by blast
  have "\<not> list_all (\<lambda>m. message_ok (erase m)) cms"
  proof
    assume "list_all (\<lambda>m. message_ok (erase m)) cms"
    then have "list_all message_ok (map erase cms)" by (simp add: list_all_iff)
    then have "list_all message_ok (map erase ms)" by (simp only: em)
    with ok show False by (simp add: list_all_iff)
  qed
  from translate_messages_throws[OF this, of sv "(w, n1)"] obtain e st' where
    tm: "translate_messages sv (w, n1) cms = (Inl e, st')" by blast
  with c g show ?thesis by (simp add: translate_copy_def)
qed

lemma translateRequest_caught:
  assumes p: "plain body" and mo: "messages_of body = Some ms"
    and ok: "\<not> list_all (\<lambda>m. message_ok (erase m)) ms"
  shows "fst (translateRequest sv (w, n) body account) = body"
proof -
  from translate_copy_throws[OF p mo ok, of sv w n] obtain e st' where
    "translate_copy sv (w, n) body = (Inl e, st')" by blast
  then show ?thesis by (simp add: translateRequest_def)
qed

text \<open>
  C7 (as amended). \<open>translateRequest\<close> returns the request body it was given when translation
  is not enabled for the account, when the body has no messages array, and when a step of
  the \<open>try\<close> block throws. When translation
  is enabled, the body has a messages array and no step of the \<open>try\<close> block throws (no
  message is \<open>null\<close>, no block of a user message is \<open>null\<close>, the truthy \<open>text\<close> of a text block
  is a string), it returns a new envelope: the envelope is an object made in the call, all
  its objects are made in the call, none is an object of the request body, so that an
  assignment through any reference into it leaves the request body as it was. In every case
  the result is the request body or shares no object with it, and the messages whose role
  is not \<open>user\<close> are the same in the result as in the request. The request body is a JSON
  value whose objects were there before the call (their addresses are below the next free
  one).
\<close>

theorem C7_copy_or_same:
  assumes "addrs body \<subseteq> {..<n}" and "plain body"
  shows "(fst (translateRequest sv (w, n) body account) = body \<or>
          addrs (fst (translateRequest sv (w, n) body account)) \<inter> addrs body = {}) \<and>
         (\<not> truthy (opt_get account (js ''enableTranslation'')) \<longrightarrow>
            fst (translateRequest sv (w, n) body account) = body) \<and>
         (fst (translateRequest sv (w, n) body account) \<noteq> body \<longrightarrow>
            (\<forall>a \<in> addrs (fst (translateRequest sv (w, n) body account)). \<forall>f. modify a f body = body)) \<and>
         same_non_user body (fst (translateRequest sv (w, n) body account)) \<and>
         (messages_of body = None \<longrightarrow> fst (translateRequest sv (w, n) body account) = body) \<and>
         (messages_of body = Some ms \<and> \<not> list_all (\<lambda>m. message_ok (erase m)) ms \<longrightarrow>
            fst (translateRequest sv (w, n) body account) = body) \<and>
         (truthy (opt_get account (js ''enableTranslation'')) \<and> messages_of body = Some ms \<and>
          list_all (\<lambda>m. message_ok (erase m)) ms \<longrightarrow>
            fst (translateRequest sv (w, n) body account) \<noteq> body \<and>
            n \<in> addrs (fst (translateRequest sv (w, n) body account)) \<and>
            addrs (fst (translateRequest sv (w, n) body account)) \<subseteq>
              {n..<snd (snd (translateRequest sv (w, n) body account))} \<and>
            addrs (fst (translateRequest sv (w, n) body account)) \<inter> addrs body = {} \<and>
            (\<forall>a \<in> addrs (fst (translateRequest sv (w, n) body account)). \<forall>f. modify a f body = body))"
proof -
  let ?r = "fst (translateRequest sv (w, n) body account)"
  let ?n' = "snd (snd (translateRequest sv (w, n) body account))"
  have dis: "\<not> truthy (opt_get account (js ''enableTranslation'')) \<longrightarrow> ?r = body"
    by (simp add: translateRequest_def)
  have nom: "messages_of body = None \<longrightarrow> ?r = body"
    by (simp add: translateRequest_def)
  have thr: "messages_of body = Some ms \<and> \<not> list_all (\<lambda>m. message_ok (erase m)) ms \<longrightarrow> ?r = body"
    using translateRequest_caught[OF assms(2), of ms sv w n account] by blast
  have pos: "?r \<noteq> body \<and> n \<in> addrs ?r \<and> addrs ?r \<subseteq> {n..<?n'} \<and> addrs ?r \<inter> addrs body = {} \<and>
      (\<forall>a \<in> addrs ?r. \<forall>f. modify a f body = body)"
    if h: "truthy (opt_get account (js ''enableTranslation'')) \<and> messages_of body = Some ms \<and>
          list_all (\<lambda>m. message_ok (erase m)) ms"
  proof -
    from h have en: "truthy (opt_get account (js ''enableTranslation''))"
      and mo: "messages_of body = Some ms" and ok: "list_all (\<lambda>m. message_ok (erase m)) ms" by simp_all
    from translateRequest_copy[OF en assms(2) mo ok, of sv w n] obtain tb w' n' where
      e: "translateRequest sv (w, n) body account = (tb, w', n')" and
      i: "n \<in> addrs tb" and f: "addrs tb \<subseteq> {n..<n'}" by blast
    have r: "?r = tb" "?n' = n'" by (simp_all add: e)
    have d: "addrs tb \<inter> addrs body = {}" using f assms(1) by fastforce
    then have m: "\<forall>a \<in> addrs tb. \<forall>f. modify a f body = body" using modify_fresh by blast
    have "n \<notin> addrs body" using assms(1) by auto
    with i have "tb \<noteq> body" by auto
    then show ?thesis unfolding r using i f d m by blast
  qed
  have gen: "(?r = body \<or> addrs ?r \<inter> addrs body = {}) \<and>
      (?r \<noteq> body \<longrightarrow> (\<forall>a \<in> addrs ?r. \<forall>f. modify a f body = body)) \<and> same_non_user body ?r"
  proof (cases "?r = body")
    case True
    then show ?thesis by (simp add: same_non_user_refl)
  next
    case False
    with translateRequest_cases[of sv w n body account] obtain ms0 w' n' where
      mo: "messages_of body = Some ms0" and c: "translate_copy sv (w, n) body = (Inr ?r, w', n')"
      by blast
    from translate_copy_fresh[OF c] assms(1) have d: "addrs ?r \<inter> addrs body = {}" by fastforce
    then have "\<forall>a \<in> addrs ?r. \<forall>f. modify a f body = body"
      using modify_fresh by blast
    moreover have "same_non_user body ?r" using c assms(2) mo by (rule translate_copy_same_non_user)
    ultimately show ?thesis using d by blast
  qed
  show ?thesis
    apply (intro conjI)
    subgoal using gen by blast
    subgoal by (rule dis)
    subgoal using gen by blast
    subgoal using gen by blast
    subgoal by (rule nom)
    subgoal by (rule thr)
    subgoal using pos by blast
    done
qed

text \<open>A request for examples; its user message is the two code units of a Chinese greeting.\<close>

definition ni_hao :: jsstring where
  "ni_hao = [0x4F60, 0x597D]"

definition demo_body :: hval where
  "demo_body =
     HObj 0 [(js ''model'', HStr (js ''m'')),
             (js ''messages'',
              HArr 1 [HObj 2 [(js ''role'', HStr (js ''system'')), (js ''content'', HStr (js ''Be brief''))],
                      HObj 3 [(js ''role'', HStr (js ''user'')), (js ''content'', HStr ni_hao)]])]"

definition demo_result :: hval where
  "demo_result =
     HObj 4 [(js ''model'', HStr (js ''m'')),
             (js ''messages'',
              HArr 5 [HObj 6 [(js ''role'', HStr (js ''system'')), (js ''content'', HStr (js ''Be brief''))],
                      HObj 7 [(js ''role'', HStr (js ''user'')),
                              (js ''content'', HStr (js ''['' @ ni_hao @ js '']''))]])]"

definition account_with :: "jsval \<Rightarrow> jsval" where
  "account_with v = JObj [(js ''id'', JStr (js ''acct'')), (js ''enableTranslation'', v)]"

lemma demo_translateText: "translateText demo_services () ni_hao = (js ''['' @ ni_hao @ js '']'', ())"
  by (simp add: translateText_def ni_hao_def containsChinese_def extract_code_def match_fence_def
      match_inline_def fence_def backtick_def trim_def is_ws_def js_def translate_def
      translate_lookup_def translate_uncached_def callTranslationAPI_def languageNames_def
      demo_services_def restore_def Let_def)

lemma demo_translate_copy:
  "translate_copy demo_services ((), 4) demo_body = (Inr demo_result, (), 8)"
  by (simp add: translate_copy_def demo_body_def demo_result_def translateContent_def
      demo_translateText h_nullish_def js_def Let_def)

lemma demo_messages_of: "messages_of demo_body \<noteq> None"
  by (simp add: messages_of_def h_nullish_def demo_body_def js_def)

lemma demo_translateRequest:
  "truthy v \<Longrightarrow> translateRequest demo_services ((), 4) demo_body (account_with v) = (demo_result, (), 8)"
  by (simp add: translateRequest_def demo_translate_copy demo_messages_of account_with_def
      opt_get_def nullish_def js_def)

definition demo_messages :: "hval list" where
  "demo_messages =
     [HObj 2 [(js ''role'', HStr (js ''system'')), (js ''content'', HStr (js ''Be brief''))],
      HObj 3 [(js ''role'', HStr (js ''user'')), (js ''content'', HStr ni_hao)]]"

definition null_message_body :: hval where
  "null_message_body = HObj 0 [(js ''messages'', HArr 1 [HNull])]"

lemma demo_messages_ok:
  "messages_of demo_body = Some demo_messages"
  "list_all (\<lambda>m. message_ok (erase m)) demo_messages"
  by (simp_all add: messages_of_def h_nullish_def demo_body_def demo_messages_def message_ok_def
      nullish_def js_def)

lemma null_message_not_ok:
  "messages_of null_message_body = Some [HNull]"
  "\<not> list_all (\<lambda>m. message_ok (erase m)) [HNull]"
  by (simp_all add: messages_of_def h_nullish_def null_message_body_def message_ok_def nullish_def
      js_def)

theorem C7_copy_or_same_witness:
  "addrs demo_body \<subseteq> {..<4} \<and> plain demo_body \<and>
   truthy (opt_get (account_with (JBool True)) (js ''enableTranslation'')) \<and>
   messages_of demo_body = Some demo_messages \<and>
   list_all (\<lambda>m. message_ok (erase m)) demo_messages \<and>
   fst (translateRequest demo_services ((), 4) demo_body (account_with (JBool True))) = demo_result \<and>
   demo_result \<noteq> demo_body \<and>
   addrs demo_result \<inter> addrs demo_body = {} \<and>
   4 \<in> addrs demo_result \<and>
   modify 4 (\<lambda>v. h_set v (js ''model'') (HStr (js ''other''))) demo_body = demo_body \<and>
   same_non_user demo_body demo_result \<and>
   \<not> truthy (opt_get (account_with (JBool False)) (js ''enableTranslation'')) \<and>
   fst (translateRequest demo_services ((), 4) demo_body (account_with (JBool False))) = demo_body \<and>
   addrs null_message_body \<subseteq> {..<4} \<and> plain null_message_body \<and>
   messages_of null_message_body = Some [HNull] \<and>
   \<not> list_all (\<lambda>m. message_ok (erase m)) [HNull] \<and>
   fst (translateRequest demo_services ((), 4) null_message_body (account_with (JBool True))) =
     null_message_body"
proof -
  have a: "addrs demo_body \<subseteq> {..<4}" by (simp add: demo_body_def)
  have p: "plain demo_body" by (simp add: demo_body_def)
  have e: "truthy (opt_get (account_with (JBool True)) (js ''enableTranslation''))"
    by (simp add: account_with_def opt_get_def nullish_def js_def)
  have r: "fst (translateRequest demo_services ((), 4) demo_body (account_with (JBool True))) = demo_result"
    by (simp add: demo_translateRequest)
  have m: "4 \<in> addrs demo_result" by (simp add: demo_result_def)
  have f: "\<not> truthy (opt_get (account_with (JBool False)) (js ''enableTranslation''))"
    by (simp add: account_with_def opt_get_def nullish_def js_def)
  have a0: "addrs null_message_body \<subseteq> {..<4}" by (simp add: null_message_body_def)
  have p0: "plain null_message_body" by (simp add: null_message_body_def)
  note t = C7_copy_or_same[OF a p, of demo_services "()" "account_with (JBool True)" demo_messages,
      unfolded r]
  note u = C7_copy_or_same[OF a p, of demo_services "()" "account_with (JBool False)"]
  note v = C7_copy_or_same[OF a0 p0, of demo_services "()" "account_with (JBool True)" "[HNull]"]
  from t e demo_messages_ok have pos: "demo_result \<noteq> demo_body \<and> 4 \<in> addrs demo_result \<and>
      addrs demo_result \<inter> addrs demo_body = {} \<and>
      (\<forall>a \<in> addrs demo_result. \<forall>f. modify a f demo_body = demo_body)"
    by blast
  then have ne: "demo_result \<noteq> demo_body" and 1: "addrs demo_result \<inter> addrs demo_body = {}"
    and 2: "modify 4 (\<lambda>v. h_set v (js ''model'') (HStr (js ''other''))) demo_body = demo_body"
    by blast+
  from t have 3: "same_non_user demo_body demo_result" by blast
  from u f have 4: "fst (translateRequest demo_services ((), 4) demo_body (account_with (JBool False))) = demo_body"
    by blast
  from v null_message_not_ok have 5:
    "fst (translateRequest demo_services ((), 4) null_message_body (account_with (JBool True))) =
       null_message_body" by blast
  show ?thesis
    by (intro conjI a p e demo_messages_ok r ne 1 m 2 3 f 4 a0 p0 null_message_not_ok 5)
qed

text \<open>
  As stated, for every account, C7 fails: for an account without translation the result
  is the request body itself, and an assignment to the result is an assignment to the
  request body.
\<close>

theorem C7_disabled_returns_input_counterexample:
  "fst (translateRequest demo_services ((), 4) demo_body (account_with (JBool False))) = demo_body \<and>
   0 \<in> addrs demo_body \<and>
   modify 0 (\<lambda>v. h_set v (js ''model'') (HStr (js ''other''))) demo_body \<noteq> demo_body"
  by (simp add: translateRequest_def account_with_def opt_get_def nullish_def demo_body_def js_def)

subsection \<open>An account whose flag is the string false\<close>

text \<open>Every event passed through, as a translator that is not enabled does.\<close>

fun pass_all :: "translator \<Rightarrow> jsobject list \<Rightarrow> translator" where
  "pass_all t [] = t"
| "pass_all t (event # events) =
     pass_all (passthrough (t\<lparr>stats := (stats t)\<lparr>totalEvents := totalEvents (stats t) + 1\<rparr>\<rparr>) event) events"

lemma enabled_passthrough: "enabled (passthrough t ev) = enabled t"
  by (simp add: passthrough_def writeSSE_def split: option.splits)

lemma process_all_disabled:
  "\<not> enabled t \<Longrightarrow> process_all sv (w, t) events = (w, pass_all t events)"
proof (induction events arbitrary: t)
  case Nil
  then show ?case by simp
next
  case (Cons ev events)
  let ?t = "passthrough (t\<lparr>stats := (stats t)\<lparr>totalEvents := totalEvents (stats t) + 1\<rparr>\<rparr>) ev"
  from Cons.prems have p: "processEvent sv (w, t) ev = (w, ?t)" by (simp add: processEvent_def)
  from Cons.prems have "\<not> enabled ?t" by (simp add: enabled_passthrough)
  from Cons.IH[OF this] p show ?case by simp
qed

text \<open>
  C1. For an account whose \<open>enableTranslation\<close> is the string \<open>"false"\<close>: the first guard of
  \<open>translateRequest\<close> does not hold and the request is handled as for an account whose field
  is \<open>true\<close>, that is, a body with a messages array goes through the copy and the
  translation of its user messages; and the response translator is not enabled and passes
  every event through.
\<close>

theorem C1_string_false:
  assumes "opt_get account (js ''enableTranslation'') = JStr (js ''false'')"
  shows "truthy (opt_get account (js ''enableTranslation'')) \<and>
         translateRequest sv st body account =
           translateRequest sv st body (JObj [(js ''enableTranslation'', JBool True)]) \<and>
         (messages_of body \<noteq> None \<longrightarrow>
            translateRequest sv st body account =
              (case translate_copy sv st body of
                 (Inr translatedBody, st') \<Rightarrow> (translatedBody, st')
               | (Inl e, st') \<Rightarrow> (body, st'))) \<and>
         \<not> enabled (new_ResponseTranslator account out) \<and>
         process_all sv (w, new_ResponseTranslator account out) events =
           (w, pass_all (new_ResponseTranslator account out) events)"
proof -
  have ne: "js ''false'' \<noteq> []" "js ''false'' \<noteq> js ''true''" by (simp_all add: js_def)
  have t: "truthy (opt_get account (js ''enableTranslation''))"
    unfolding assms using ne by simp
  have t': "truthy (opt_get (JObj [(js ''enableTranslation'', JBool True)]) (js ''enableTranslation''))"
    by (simp add: opt_get_def nullish_def)
  have e: "\<not> enabled (new_ResponseTranslator account out)"
    using ne by (simp add: new_ResponseTranslator_def assms)
  have 1: "translateRequest sv st body account =
      translateRequest sv st body (JObj [(js ''enableTranslation'', JBool True)])"
    using t t' by (simp add: translateRequest_def)
  have 2: "messages_of body \<noteq> None \<longrightarrow>
      translateRequest sv st body account =
        (case translate_copy sv st body of
           (Inr translatedBody, st') \<Rightarrow> (translatedBody, st')
         | (Inl e, st') \<Rightarrow> (body, st'))"
    using t by (auto simp: translateRequest_def split: prod.splits sum.splits)
  have 3: "process_all sv (w, new_ResponseTranslator account out) events =
      (w, pass_all (new_ResponseTranslator account out) events)"
    using e by (rule process_all_disabled)
  show ?thesis by (intro conjI t 1 2 e 3)
qed

theorem C1_string_false_witness:
  "opt_get (account_with (JStr (js ''false''))) (js ''enableTranslation'') = JStr (js ''false'') \<and>
   messages_of demo_body \<noteq> None \<and>
   translateRequest demo_services ((), 4) demo_body (account_with (JStr (js ''false''))) =
     (demo_result, (), 8) \<and>
   translateRequest demo_services ((), 4) demo_body (account_with (JBool False)) = (demo_body, (), 4) \<and>
   \<not> enabled (new_ResponseTranslator (account_with (JStr (js ''false'')))
        (Some \<lparr>writable = True, written = []\<rparr>)) \<and>
   sent_events (snd (process_all demo_services
       ((), new_ResponseTranslator (account_with (JStr (js ''false''))) (Some \<lparr>writable = True, written = []\<rparr>))
       [ev_block_start ''text'', ev_text_delta ''Hi.'', ev_block_stop])) =
     [JObj (ev_block_start ''text''), JObj (ev_text_delta ''Hi.''), JObj ev_block_stop]"
proof -
  let ?a = "account_with (JStr (js ''false''))"
  let ?t = "new_ResponseTranslator ?a (Some \<lparr>writable = True, written = []\<rparr>)"
  have h: "opt_get ?a (js ''enableTranslation'') = JStr (js ''false'')"
    by (simp add: account_with_def opt_get_def nullish_def js_def)
  note c = C1_string_false[OF h, of demo_services "((), 4)" demo_body
      "Some \<lparr>writable = True, written = []\<rparr>" "()"
      "[ev_block_start ''text'', ev_text_delta ''Hi.'', ev_block_stop]"]
  from c demo_messages_of
  have 1: "translateRequest demo_services ((), 4) demo_body ?a =
      (case translate_copy demo_services ((), 4) demo_body of
         (Inr translatedBody, st') \<Rightarrow> (translatedBody, st') | (Inl e, st') \<Rightarrow> (demo_body, st'))"
    by blast
  have 1: "translateRequest demo_services ((), 4) demo_body ?a = (demo_result, (), 8)"
    unfolding 1 by (simp add: demo_translate_copy)
  have 2: "translateRequest demo_services ((), 4) demo_body (account_with (JBool False)) = (demo_body, (), 4)"
    by (simp add: translateRequest_def account_with_def opt_get_def nullish_def js_def)
  from c have 3: "\<not> enabled ?t" by blast
  from c have "process_all demo_services ((), ?t) [ev_block_start ''text'', ev_text_delta ''Hi.'', ev_block_stop] =
      ((), pass_all ?t [ev_block_start ''text'', ev_text_delta ''Hi.'', ev_block_stop])" by blast
  then have 4: "sent_events (snd (process_all demo_services ((), ?t)
       [ev_block_start ''text'', ev_text_delta ''Hi.'', ev_block_stop])) =
     [JObj (ev_block_start ''text''), JObj (ev_text_delta ''Hi.''), JObj ev_block_stop]"
    by (simp add: passthrough_def writeSSE_def sent_events_def new_ResponseTranslator_def)
  show ?thesis by (intro conjI h demo_messages_of 1 2 3 4)
qed


section \<open>Usage extraction (openaiResponsesRelayService.js)\<close>

text \<open>
  \<open>Number(value)\<close>: the conversion of a string and that of an array or object go through
  the parser of numeric literals of the runtime, and are parameters here.
\<close>

record numeric =
  string_to_number :: "jsstring \<Rightarrow> jsnum"
  object_to_number :: "jsval \<Rightarrow> jsnum"

definition to_number :: "numeric \<Rightarrow> jsval \<Rightarrow> jsnum" where
  "to_number nm v =
     (case v of
        JUndefined \<Rightarrow> NaN
      | JNull \<Rightarrow> Fin 0
      | JBool b \<Rightarrow> Fin (if b then 1 else 0)
      | JNum x \<Rightarrow> x
      | JStr s \<Rightarrow> string_to_number nm s
      | _ \<Rightarrow> object_to_number nm v)"

text \<open>\<open>typeof v === 'object'\<close>, for a value that was read from JSON.\<close>

definition typeof_object :: "jsval \<Rightarrow> bool" where
  "typeof_object v = (case v of JNull \<Rightarrow> True | JArr xs \<Rightarrow> True | JObj kvs \<Rightarrow> True | _ \<Rightarrow> False)"

text \<open>The loop \<open>for (const value of candidates)\<close> of \<open>extractCacheCreationTokens\<close>.\<close>

fun first_number :: "numeric \<Rightarrow> jsval list \<Rightarrow> jsnum" where
  "first_number nm [] = Fin 0"
| "first_number nm (v # rest) =
     (if v \<noteq> JUndefined \<and> v \<noteq> JNull \<and> v \<noteq> JStr []
      then (let parsed = to_number nm v in
            if parsed \<noteq> NaN then parsed else first_number nm rest)
      else first_number nm rest)"

definition extractCacheCreationTokens :: "numeric \<Rightarrow> jsval \<Rightarrow> jsnum" where
  "extractCacheCreationTokens nm usageData =
     (if \<not> truthy usageData \<or> \<not> typeof_object usageData then Fin 0
      else (let details = js_or (js_or (get_prop usageData (js ''input_tokens_details''))
                                       (get_prop usageData (js ''prompt_tokens_details'')))
                                (JObj []);
                candidates = [get_prop details (js ''cache_creation_input_tokens''),
                              get_prop details (js ''cache_creation_tokens''),
                              get_prop usageData (js ''cache_creation_input_tokens''),
                              get_prop usageData (js ''cache_creation_tokens'')]
            in first_number nm candidates))"

text \<open>
  The double nearest to an integer: an integer of at most 53 bits is a double; a longer one
  keeps its 53 leading bits, rounded to nearest, a tie to the even neighbour, and a magnitude
  that rounds to \<open>2 ^ 1024\<close> or more is an infinity.
\<close>

fun bit_length :: "nat \<Rightarrow> nat" where
  "bit_length n = (if n = 0 then 0 else Suc (bit_length (n div 2)))"

declare bit_length.simps [simp del]

definition round_nat :: "nat \<Rightarrow> nat" where
  "round_nat m =
     (let e = bit_length m - 53;
          q = m div 2 ^ e;
          r = m mod 2 ^ e
      in (if 2 ^ e < 2 * r \<or> (2 * r = 2 ^ e \<and> odd q) then q + 1 else q) * 2 ^ e)"

definition round_double :: "int \<Rightarrow> jsnum" where
  "round_double x =
     (let y = int (round_nat (nat \<bar>x\<bar>))
      in if 2 ^ 1024 \<le> y then (if x < 0 then NegInf else PosInf)
         else Fin (if x < 0 then - y else y))"

text \<open>The integers that a double holds exactly; a number read from JSON is one of them.\<close>

definition is_double :: "int \<Rightarrow> bool" where
  "is_double x \<longleftrightarrow> round_double x = Fin x"

text \<open>
  \<open>a - b\<close> on numbers: the exact difference, rounded to a double; and \<open>Math.max(0, x)\<close>.
\<close>

fun num_minus :: "jsnum \<Rightarrow> jsnum \<Rightarrow> jsnum" where
  "num_minus (Fin a) (Fin b) = round_double (a - b)"
| "num_minus NaN y = NaN"
| "num_minus x NaN = NaN"
| "num_minus PosInf PosInf = NaN"
| "num_minus NegInf NegInf = NaN"
| "num_minus PosInf y = PosInf"
| "num_minus NegInf y = NegInf"
| "num_minus (Fin a) PosInf = NegInf"
| "num_minus (Fin a) NegInf = PosInf"

fun math_max0 :: "jsnum \<Rightarrow> jsnum" where
  "math_max0 NaN = NaN"
| "math_max0 NegInf = Fin 0"
| "math_max0 (Fin i) = Fin (max 0 i)"
| "math_max0 PosInf = PosInf"

text \<open>
  The constants of the \<open>if (usageData)\<close> block of \<open>_handleStreamResponse\<close> (and of
  \<open>_handleNormalResponse\<close>, which has the same lines), and the four counts handed to
  \<open>apiKeyService.recordUsage\<close>.
\<close>

definition totalInputTokens :: "jsval \<Rightarrow> jsval" where
  "totalInputTokens usageData =
     js_or (js_or (get_prop usageData (js ''input_tokens'')) (get_prop usageData (js ''prompt_tokens'')))
           (JNum (Fin 0))"

definition outputTokens :: "jsval \<Rightarrow> jsval" where
  "outputTokens usageData =
     js_or (js_or (get_prop usageData (js ''output_tokens'')) (get_prop usageData (js ''completion_tokens'')))
           (JNum (Fin 0))"

definition cacheReadTokens :: "jsval \<Rightarrow> jsval" where
  "cacheReadTokens usageData =
     js_or (opt_get (get_prop usageData (js ''input_tokens_details'')) (js ''cached_tokens''))
           (JNum (Fin 0))"

definition actualInputTokens :: "numeric \<Rightarrow> jsval \<Rightarrow> jsnum" where
  "actualInputTokens nm usageData =
     math_max0 (num_minus (to_number nm (totalInputTokens usageData))
                          (to_number nm (cacheReadTokens usageData)))"

record recorded =
  rec_input :: jsnum
  rec_output :: jsval
  rec_cache_create :: jsnum
  rec_cache_read :: jsval

definition recordUsage_counts :: "numeric \<Rightarrow> jsval \<Rightarrow> recorded option" where
  "recordUsage_counts nm usageData =
     (if truthy usageData
      then Some \<lparr>rec_input = actualInputTokens nm usageData,
                 rec_output = outputTokens usageData,
                 rec_cache_create = extractCacheCreationTokens nm usageData,
                 rec_cache_read = cacheReadTokens usageData\<rparr>
      else None)"

subsection \<open>The cache-creation count as the specification words it\<close>

text \<open>
  The first defined, non-empty, finite numeric value among
  \<open>usage.input_tokens_details.cache_creation_input_tokens\<close>,
  \<open>usage.input_tokens_details.cache_creation_tokens\<close>, \<open>usage.cache_creation_input_tokens\<close>
  and \<open>usage.cache_creation_tokens\<close>, else 0.
\<close>

definition is_finite :: "jsnum \<Rightarrow> bool" where
  "is_finite x = (case x of Fin i \<Rightarrow> True | _ \<Rightarrow> False)"

definition spec_candidates :: "jsval \<Rightarrow> jsval list" where
  "spec_candidates usage =
     [opt_get (opt_get usage (js ''input_tokens_details'')) (js ''cache_creation_input_tokens''),
      opt_get (opt_get usage (js ''input_tokens_details'')) (js ''cache_creation_tokens''),
      opt_get usage (js ''cache_creation_input_tokens''),
      opt_get usage (js ''cache_creation_tokens'')]"

definition spec_usable :: "numeric \<Rightarrow> jsval \<Rightarrow> bool" where
  "spec_usable nm v \<longleftrightarrow>
     v \<noteq> JUndefined \<and> v \<noteq> JNull \<and> v \<noteq> JStr [] \<and> is_finite (to_number nm v)"

definition spec_cache_creation :: "numeric \<Rightarrow> jsval \<Rightarrow> jsnum" where
  "spec_cache_creation nm usage =
     (case find (spec_usable nm) (spec_candidates usage) of
        None \<Rightarrow> Fin 0
      | Some v \<Rightarrow> to_number nm v)"

text \<open>
  What the code does: the details are \<open>input_tokens_details\<close>, or \<open>prompt_tokens_details\<close>
  when those are missing, and a candidate counts when its number is not \<open>NaN\<close>.
\<close>

definition details_of :: "jsval \<Rightarrow> jsval" where
  "details_of usage =
     (if truthy (get_prop usage (js ''input_tokens_details'')) then get_prop usage (js ''input_tokens_details'')
      else if truthy (get_prop usage (js ''prompt_tokens_details'')) then get_prop usage (js ''prompt_tokens_details'')
      else JObj [])"

definition code_candidates :: "jsval \<Rightarrow> jsval list" where
  "code_candidates usage =
     [get_prop (details_of usage) (js ''cache_creation_input_tokens''),
      get_prop (details_of usage) (js ''cache_creation_tokens''),
      get_prop usage (js ''cache_creation_input_tokens''),
      get_prop usage (js ''cache_creation_tokens'')]"

definition code_usable :: "numeric \<Rightarrow> jsval \<Rightarrow> bool" where
  "code_usable nm v \<longleftrightarrow> v \<noteq> JUndefined \<and> v \<noteq> JNull \<and> v \<noteq> JStr [] \<and> to_number nm v \<noteq> NaN"

text \<open>A conversion for examples: a string of decimal digits is its number, any other string is \<open>NaN\<close>.\<close>

definition demo_numeric :: numeric where
  "demo_numeric =
     \<lparr>string_to_number = (\<lambda>s. if s \<noteq> [] \<and> list_all is_digit s then Fin (int (undec s)) else NaN),
      object_to_number = (\<lambda>v. NaN)\<rparr>"

definition usage_prompt_details :: jsval where
  "usage_prompt_details =
     JObj [(js ''prompt_tokens'', JNum (Fin 12)),
           (js ''prompt_tokens_details'', JObj [(js ''cache_creation_input_tokens'', JNum (Fin 5))])]"

definition usage_cached :: jsval where
  "usage_cached =
     JObj [(js ''input_tokens'', JNum (Fin 100)),
           (js ''input_tokens_details'',
              JObj [(js ''cached_tokens'', JNum (Fin 30)), (js ''cache_creation_tokens'', JStr (js ''7''))])]"

lemma first_number_find:
  "first_number nm vs = (case find (code_usable nm) vs of None \<Rightarrow> Fin 0 | Some v \<Rightarrow> to_number nm v)"
  by (induction vs) (auto simp: code_usable_def Let_def)

lemma first_number_not_NaN: "first_number nm vs \<noteq> NaN"
  by (induction vs) (auto simp: Let_def)

lemma extractCacheCreationTokens_find:
  "truthy usage \<Longrightarrow> typeof_object usage \<Longrightarrow>
   extractCacheCreationTokens nm usage =
     (case find (code_usable nm) (code_candidates usage) of None \<Rightarrow> Fin 0 | Some v \<Rightarrow> to_number nm v)"
  by (simp add: extractCacheCreationTokens_def first_number_find code_candidates_def details_of_def
      js_or_def Let_def)

lemma bit_length_less: "m < 2 ^ k \<Longrightarrow> bit_length m \<le> k"
proof (induction k arbitrary: m)
  case 0
  then show ?case by (simp add: bit_length.simps)
next
  case (Suc k)
  show ?case
  proof (cases "m = 0")
    case True
    then show ?thesis by (simp add: bit_length.simps)
  next
    case False
    from Suc.prems have "m div 2 < 2 ^ k" by simp
    from Suc.IH[OF this] False show ?thesis by (subst bit_length.simps) simp
  qed
qed

lemma bit_length_between: "2 ^ k \<le> m \<Longrightarrow> m < 2 ^ Suc k \<Longrightarrow> bit_length m = Suc k"
proof (induction k arbitrary: m)
  case 0
  then have "m = 1" by simp
  then show ?case by (simp add: bit_length.simps)
next
  case (Suc k)
  from Suc.prems have "2 ^ k \<le> m div 2" "m div 2 < 2 ^ Suc k" by simp_all
  from Suc.IH[OF this] have "bit_length (m div 2) = Suc k" .
  moreover from Suc.prems have "m \<noteq> 0" by auto
  ultimately show ?case by (subst bit_length.simps) simp
qed

lemma round_nat_small: "m < 2 ^ 53 \<Longrightarrow> round_nat m = m"
proof -
  assume "m < 2 ^ 53"
  then have "bit_length m \<le> 53" by (rule bit_length_less)
  then have e: "bit_length m - 53 = 0" by simp
  show ?thesis unfolding round_nat_def e Let_def by simp
qed

lemma round_nat_2_53: "round_nat (2 ^ 53) = 2 ^ 53"
proof -
  have b: "bit_length (2 ^ 53) - 53 = 1"
    using bit_length_between[of 53 "2 ^ 53"] by simp
  show ?thesis unfolding round_nat_def b Let_def by simp
qed

lemma round_nat_exact: "m \<le> 2 ^ 53 \<Longrightarrow> round_nat m = m"
  using round_nat_small[of m] round_nat_2_53 by (cases "m = 2 ^ 53") simp_all

lemma round_double_exact: "\<bar>x\<bar> \<le> 2 ^ 53 \<Longrightarrow> round_double x = Fin x"
proof -
  assume a: "\<bar>x\<bar> \<le> 2 ^ 53"
  then have "nat \<bar>x\<bar> \<le> 2 ^ 53" by (simp add: nat_le_iff)
  then have r: "round_nat (nat \<bar>x\<bar>) = nat \<bar>x\<bar>" by (rule round_nat_exact)
  have "(2::int) ^ 53 < 2 ^ 1024" by (rule power_strict_increasing) simp_all
  with a have l: "\<not> 2 ^ 1024 \<le> \<bar>x\<bar>" by linarith
  show ?thesis
  proof (cases "x < 0")
    case True
    with l show ?thesis unfolding round_double_def r Let_def by simp
  next
    case False
    with l show ?thesis unfolding round_double_def r Let_def by simp
  qed
qed

lemma is_double_safe: "\<bar>x\<bar> \<le> 2 ^ 53 \<Longrightarrow> is_double x"
  by (simp add: is_double_def round_double_exact)

lemma actualInputTokens_numbers:
  "totalInputTokens usage = JNum (Fin i) \<Longrightarrow> cacheReadTokens usage = JNum (Fin c) \<Longrightarrow>
   is_double (i - c) \<Longrightarrow> actualInputTokens nm usage = Fin (max 0 (i - c))"
  by (simp add: actualInputTokens_def to_number_def is_double_def)

text \<open>
  Beyond \<open>2 ^ 53\<close> the subtraction rounds: \<open>2 ^ 53 - (-1)\<close> is \<open>2 ^ 53\<close>.
\<close>

lemma round_nat_2_53_1: "round_nat (2 ^ 53 + 1) = 2 ^ 53"
proof -
  have b: "bit_length (2 ^ 53 + 1) - 53 = 1"
    using bit_length_between[of 53 "2 ^ 53 + 1"] by simp
  show ?thesis unfolding round_nat_def b Let_def by simp
qed

lemma num_minus_rounds:
  "num_minus (Fin (2 ^ 53)) (Fin (- 1)) = Fin (2 ^ 53) \<and> \<not> is_double (2 ^ 53 - (- 1))"
proof -
  have n: "nat \<bar>2 ^ 53 - (- 1) :: int\<bar> = 2 ^ 53 + 1" by simp
  have "(2::int) ^ 53 < 2 ^ 1024" by (rule power_strict_increasing) simp_all
  then have l: "\<not> (2::int) ^ 1024 \<le> 2 ^ 53" by linarith
  have r: "round_double (2 ^ 53 - (- 1)) = Fin (2 ^ 53)"
    unfolding round_double_def n round_nat_2_53_1 Let_def using l by simp
  then show ?thesis by (simp add: is_double_def)
qed

lemma extractCacheCreationTokens_other:
  "\<not> (truthy usage \<and> typeof_object usage) \<Longrightarrow> extractCacheCreationTokens nm usage = Fin 0"
  by (auto simp: extractCacheCreationTokens_def)

lemma demo_usage_cached:
  "totalInputTokens usage_cached = JNum (Fin 100)"
  "cacheReadTokens usage_cached = JNum (Fin 30)"
  "find (code_usable demo_numeric) (code_candidates usage_cached) = Some (JStr (js ''7''))"
  "truthy usage_cached" "typeof_object usage_cached"
  by (simp_all add: usage_cached_def totalInputTokens_def cacheReadTokens_def js_or_def opt_get_def
      nullish_def js_def code_usable_def code_candidates_def details_of_def to_number_def
      demo_numeric_def is_digit_def typeof_object_def)

text \<open>
  C8 (amended). The count returned by \<open>extractCacheCreationTokens\<close> is 0 when the usage payload
  is not an object; otherwise it is \<open>Number(v)\<close> for the first \<open>v\<close> that is not \<open>undefined\<close>,
  \<open>null\<close> or the empty string and whose number is not \<open>NaN\<close>, in the order
  \<open>details.cache_creation_input_tokens\<close>, \<open>details.cache_creation_tokens\<close>,
  \<open>usage.cache_creation_input_tokens\<close>, \<open>usage.cache_creation_tokens\<close>, where \<open>details\<close> is
  \<open>usage.input_tokens_details\<close>, or \<open>usage.prompt_tokens_details\<close> when that is missing; it is 0
  when there is no such \<open>v\<close>, and it is never \<open>NaN\<close>. When the input count and the cached-read
  count computed for a (truthy) usage payload are integers \<open>i\<close> and \<open>c\<close>, and \<open>i\<close>, \<open>c\<close> and
  \<open>i - c\<close> are integers that a double holds exactly, the actual input count handed to
  \<open>recordUsage\<close> is \<open>max 0 (i - c)\<close>; every integer of magnitude at most \<open>2 ^ 53\<close> is held
  exactly.
\<close>

theorem C8_usage_counts:
  "extractCacheCreationTokens nm usage =
     (if truthy usage \<and> typeof_object usage
      then (case find (code_usable nm) (code_candidates usage) of
              None \<Rightarrow> Fin 0
            | Some v \<Rightarrow> to_number nm v)
      else Fin 0) \<and>
   extractCacheCreationTokens nm usage \<noteq> NaN \<and>
   (truthy usage \<and> totalInputTokens usage = JNum (Fin i) \<and> cacheReadTokens usage = JNum (Fin c) \<and>
    is_double i \<and> is_double c \<and> is_double (i - c) \<longrightarrow>
      recordUsage_counts nm usage =
        Some \<lparr>rec_input = Fin (max 0 (i - c)),
              rec_output = outputTokens usage,
              rec_cache_create = extractCacheCreationTokens nm usage,
              rec_cache_read = JNum (Fin c)\<rparr>) \<and>
   (\<bar>k\<bar> \<le> 2 ^ 53 \<longrightarrow> is_double k)"
proof (intro conjI impI)
  show "extractCacheCreationTokens nm usage =
     (if truthy usage \<and> typeof_object usage
      then (case find (code_usable nm) (code_candidates usage) of
              None \<Rightarrow> Fin 0
            | Some v \<Rightarrow> to_number nm v)
      else Fin 0)"
  proof (cases "truthy usage \<and> typeof_object usage")
    case True
    then show ?thesis using extractCacheCreationTokens_find[of usage nm] by simp
  next
    case False
    then have "extractCacheCreationTokens nm usage = Fin 0"
      by (rule extractCacheCreationTokens_other)
    with False show ?thesis by auto
  qed
  show "extractCacheCreationTokens nm usage \<noteq> NaN"
    by (simp add: extractCacheCreationTokens_def first_number_not_NaN Let_def)
next
  assume "\<bar>k\<bar> \<le> 2 ^ 53"
  then show "is_double k" by (rule is_double_safe)
next
  assume a: "truthy usage \<and> totalInputTokens usage = JNum (Fin i) \<and> cacheReadTokens usage = JNum (Fin c) \<and>
    is_double i \<and> is_double c \<and> is_double (i - c)"
  then have t: "truthy usage" by simp
  show "recordUsage_counts nm usage =
        Some \<lparr>rec_input = Fin (max 0 (i - c)),
              rec_output = outputTokens usage,
              rec_cache_create = extractCacheCreationTokens nm usage,
              rec_cache_read = JNum (Fin c)\<rparr>"
    using a t actualInputTokens_numbers[of usage i c nm] by (simp add: recordUsage_counts_def)
qed

theorem C8_usage_counts_witness:
  "(truthy usage_cached \<and> totalInputTokens usage_cached = JNum (Fin 100) \<and>
    cacheReadTokens usage_cached = JNum (Fin 30) \<and>
    is_double 100 \<and> is_double 30 \<and> is_double (100 - 30)) \<and>
   \<bar>100 :: int\<bar> \<le> 2 ^ 53 \<and>
   extractCacheCreationTokens demo_numeric usage_cached = Fin 7 \<and>
   recordUsage_counts demo_numeric usage_cached =
     Some \<lparr>rec_input = Fin 70,
           rec_output = JNum (Fin 0),
           rec_cache_create = Fin 7,
           rec_cache_read = JNum (Fin 30)\<rparr>"
proof -
  have n: "to_number demo_numeric (JStr (js ''7'')) = Fin 7"
    by (simp add: to_number_def demo_numeric_def is_digit_def js_def undec_def)
  have o: "outputTokens usage_cached = JNum (Fin 0)"
    by (simp add: outputTokens_def usage_cached_def js_or_def js_def)
  note c = C8_usage_counts[of demo_numeric usage_cached 100 30]
  have b: "\<bar>100 :: int\<bar> \<le> 2 ^ 53" "\<bar>30 :: int\<bar> \<le> 2 ^ 53" "\<bar>100 - 30 :: int\<bar> \<le> 2 ^ 53"
    by simp_all
  have d: "is_double 100" "is_double 30" "is_double (100 - 30)"
    using c[of 100, THEN conjunct2, THEN conjunct2, THEN conjunct2, THEN mp, OF b(1)]
      c[of 30, THEN conjunct2, THEN conjunct2, THEN conjunct2, THEN mp, OF b(2)]
      c[of "100 - 30", THEN conjunct2, THEN conjunct2, THEN conjunct2, THEN mp, OF b(3)]
    by blast+
  have e: "extractCacheCreationTokens demo_numeric usage_cached = Fin 7"
    using c[of 0, THEN conjunct1] by (simp add: demo_usage_cached n)
  have h: "truthy usage_cached \<and> totalInputTokens usage_cached = JNum (Fin 100) \<and>
    cacheReadTokens usage_cached = JNum (Fin 30) \<and>
    is_double 100 \<and> is_double 30 \<and> is_double (100 - 30)"
    by (intro conjI demo_usage_cached d)
  have r: "recordUsage_counts demo_numeric usage_cached =
     Some \<lparr>rec_input = Fin 70, rec_output = JNum (Fin 0), rec_cache_create = Fin 7,
           rec_cache_read = JNum (Fin 30)\<rparr>"
    using c[of 0, THEN conjunct2, THEN conjunct2, THEN conjunct1, THEN mp, OF h] by (simp add: e o)
  show ?thesis by (intro conjI h[THEN conjunct1] h[THEN conjunct2, THEN conjunct1]
      h[THEN conjunct2, THEN conjunct2, THEN conjunct1] d b(1) e r)
qed

text \<open>
  C8 as stated fails on a payload that carries its details under \<open>prompt_tokens_details\<close>:
  the code reads 5 there, the four paths of the specification give 0.
\<close>

theorem C8_prompt_tokens_details_counterexample:
  "extractCacheCreationTokens demo_numeric usage_prompt_details = Fin 5 \<and>
   spec_cache_creation demo_numeric usage_prompt_details = Fin 0"
  by (simp add: extractCacheCreationTokens_def spec_cache_creation_def spec_candidates_def
      spec_usable_def usage_prompt_details_def js_or_def opt_get_def nullish_def js_def
      to_number_def demo_numeric_def typeof_object_def is_finite_def Let_def)

section \<open>Rate-limit handling (openaiResponsesRelayService.js)\<close>

text \<open>
  \<open>response.data\<close> is either a readable stream (it has a \<open>pipe\<close> function) or a value that
  axios has decoded. Of a stream the model keeps the text of the chunks collected before
  \<open>end\<close> (or before the five seconds are over), or \<open>None\<close> when the stream emits \<open>error\<close>.
\<close>

datatype response_data = Readable "jsstring option" | Plain jsval

record upstream =
  resp_status :: nat
  resp_data :: response_data

text \<open>
  \<open>JSON.parse\<close> on a string (\<open>None\<close> when it throws) and \<open>parseInt\<close> belong to the runtime;
  \<open>markAccountRateLimited\<close> belongs to the scheduler, and the model keeps of it whether the
  awaited call resolves.
\<close>

record runtime =
  JSON_parse :: "jsstring \<Rightarrow> jsval option"
  parseInt :: "jsval \<Rightarrow> jsnum"
  markAccountRateLimited :: "jsval \<Rightarrow> jsstring \<Rightarrow> jsval \<Rightarrow> jsval \<Rightarrow> bool"

datatype effect =
    MarkAccountRateLimited jsval jsstring jsval jsval
  | Respond nat jsval

datatype outcome = Responded | Thrown

text \<open>
  \<open>JSON.parse(v)\<close> for a truthy \<open>v\<close> that is not an object: the argument is turned into a string
  first, so a boolean and a finite number parse to themselves and \<open>Infinity\<close> does not parse.
\<close>

definition parse_value :: "runtime \<Rightarrow> jsval \<Rightarrow> jsval option" where
  "parse_value rt v =
     (case v of
        JStr s \<Rightarrow> JSON_parse rt s
      | JBool b \<Rightarrow> Some v
      | JNum (Fin i) \<Rightarrow> Some v
      | _ \<Rightarrow> None)"

text \<open>
  The loop over the lines of an SSE body: the first \<open>data: \<close> line whose payload is not empty,
  not \<open>[DONE]\<close> and parses gives \<open>errorData\<close>; \<open>null\<close> when there is none.
\<close>

fun sse_error_data :: "runtime \<Rightarrow> jsstring list \<Rightarrow> jsval" where
  "sse_error_data rt [] = JNull"
| "sse_error_data rt (line # lines) =
     (if prefix (js ''data: '') line
      then (let jsonStr = trim (drop 6 line) in
            if jsonStr \<noteq> [] \<and> jsonStr \<noteq> js ''[DONE]''
            then (case JSON_parse rt jsonStr of
                    Some v \<Rightarrow> v
                  | None \<Rightarrow> sse_error_data rt lines)
            else sse_error_data rt lines)
      else sse_error_data rt lines)"

text \<open>
  The three branches that read \<open>errorData\<close> from the response; \<open>None\<close> when the stream fails,
  which takes the control to the \<open>catch\<close> of \<open>_handle429Error\<close>.
\<close>

definition read_error_data :: "runtime \<Rightarrow> jsval \<Rightarrow> response_data \<Rightarrow> jsval option" where
  "read_error_data rt isStream d =
     (case d of
        Readable chunks \<Rightarrow>
          (if truthy isStream
           then (case chunks of
                   None \<Rightarrow> None
                 | Some fullResponse \<Rightarrow>
                     (let e1 = (if find_sub (js ''data: '') fullResponse \<noteq> None
                                then sse_error_data rt (js_split [0x0A] fullResponse)
                                else JNull);
                          e2 = (if \<not> truthy e1
                                then (case JSON_parse rt fullResponse of Some v \<Rightarrow> v | None \<Rightarrow> e1)
                                else e1)
                      in Some e2))
           else Some JNull)
      | Plain v \<Rightarrow>
          Some (if truthy v \<and> \<not> typeof_object v
                then (case parse_value rt v of
                        Some e \<Rightarrow> e
                      | None \<Rightarrow> JObj [(js ''error'', JObj [(js ''message'', v)])])
                else if truthy v \<and> typeof_object v \<and> \<not> truthy (get_prop v (js ''pipe''))
                then v
                else JNull))"

definition resets_in_seconds_of :: "runtime \<Rightarrow> jsval \<Rightarrow> jsval" where
  "resets_in_seconds_of rt errorData =
     (if truthy errorData \<and> truthy (get_prop errorData (js ''error''))
      then (let err = get_prop errorData (js ''error'') in
            if truthy (get_prop err (js ''resets_in_seconds''))
            then get_prop err (js ''resets_in_seconds'')
            else if truthy (get_prop err (js ''resets_in''))
            then JNum (parseInt rt (get_prop err (js ''resets_in'')))
            else JNull)
      else JNull)"

text \<open>
  \<open>_handle429Error\<close>: the effects, and the pair \<open>(resetsInSeconds, errorData)\<close> it returns, or
  \<open>None\<close> when the call of the scheduler, which is outside the \<open>try\<close>, rejects.
\<close>

definition handle429Error ::
  "runtime \<Rightarrow> jsval \<Rightarrow> upstream \<Rightarrow> jsval \<Rightarrow> jsval \<Rightarrow> effect list \<times> (jsval \<times> jsval) option" where
  "handle429Error rt account response isStream sessionHash =
     (let (errorData, resetsInSeconds) =
            (case read_error_data rt isStream (resp_data response) of
               None \<Rightarrow> (JNull, JNull)
             | Some e \<Rightarrow> (e, resets_in_seconds_of rt e));
          accountId = get_prop account (js ''id'')
      in ([MarkAccountRateLimited accountId (js ''openai-responses'') sessionHash resetsInSeconds],
          if markAccountRateLimited rt accountId (js ''openai-responses'') sessionHash resetsInSeconds
          then Some (resetsInSeconds, errorData)
          else None))"

text \<open>
  The branch \<open>if (response.status === 429)\<close> of \<open>handleRequest\<close>, from the response of axios
  on; \<open>sessionHash\<close> is the constant computed at the top of \<open>handleRequest\<close> (the SHA-256 of
  the session id, or \<open>null\<close>). The result is \<open>None\<close> for any other status, which the later
  branches handle. When the scheduler rejects, the control goes to the \<open>catch\<close> of
  \<open>handleRequest\<close>: the outcome \<open>Thrown\<close>.
\<close>

definition rate_limit_body :: "jsval \<Rightarrow> jsval" where
  "rate_limit_body resetsInSeconds =
     JObj [(js ''error'',
            JObj [(js ''message'', JStr (js ''Rate limit exceeded'')),
                  (js ''type'', JStr (js ''rate_limit_error'')),
                  (js ''code'', JStr (js ''rate_limit_exceeded'')),
                  (js ''resets_in_seconds'', resetsInSeconds)])]"

definition handleRequest_429 ::
  "runtime \<Rightarrow> jsval \<Rightarrow> upstream \<Rightarrow> jsval \<Rightarrow> jsval \<Rightarrow> (effect list \<times> outcome) option" where
  "handleRequest_429 rt account response body sessionHash =
     (if resp_status response = 429
      then Some (case handle429Error rt account response (opt_get body (js ''stream'')) sessionHash of
                   (effects, Some (resetsInSeconds, errorData)) \<Rightarrow>
                     (effects @ [Respond 429 (js_or errorData (rate_limit_body resetsInSeconds))], Responded)
                 | (effects, None) \<Rightarrow> (effects, Thrown))
      else None)"

text \<open>
  For examples: a parser that knows the two bodies used below, and a scheduler that resolves.
\<close>

definition rate_limited :: "int \<Rightarrow> jsval" where
  "rate_limited n = JObj [(js ''error'', JObj [(js ''resets_in_seconds'', JNum (Fin n))])]"

definition body_120 :: jsstring where
  \<open>body_120 = js ''{"error":{"resets_in_seconds":120}}''\<close>

definition demo_runtime :: runtime where
  "demo_runtime =
     \<lparr>JSON_parse = (\<lambda>s. if s = body_120 then Some (rate_limited 120) else None),
      parseInt = (\<lambda>v. NaN),
      markAccountRateLimited = (\<lambda>a p h r. True)\<rparr>"

definition demo_account :: jsval where
  "demo_account = JObj [(js ''id'', JStr (js ''acct-1'')), (js ''name'', JStr (js ''main''))]"

definition json_429 :: "int \<Rightarrow> upstream" where
  "json_429 n = \<lparr>resp_status = 429, resp_data = Plain (rate_limited n)\<rparr>"

definition sse_text :: jsstring where
  "sse_text = js ''data: '' @ body_120 @ [0x0A, 0x0A]"

definition sse_429 :: upstream where
  "sse_429 = \<lparr>resp_status = 429, resp_data = Readable (Some sse_text)\<rparr>"

definition stream_body :: jsval where
  "stream_body = JObj [(js ''model'', JStr (js ''gpt-5'')), (js ''stream'', JBool True)]"

lemma truthy_get_prop_obj: "truthy (get_prop v k) \<Longrightarrow> truthy v"
  by (cases v) simp_all

lemma resets_in_seconds_of_truthy:
  "truthy (get_prop (get_prop e (js ''error'')) (js ''resets_in_seconds'')) \<Longrightarrow>
   resets_in_seconds_of rt e = get_prop (get_prop e (js ''error'')) (js ''resets_in_seconds'')"
  using truthy_get_prop_obj[of "get_prop e (js ''error'')" "js ''resets_in_seconds''"]
    truthy_get_prop_obj[of e "js ''error''"]
  by (simp add: resets_in_seconds_of_def Let_def)

lemma handle429Error_read:
  assumes "read_error_data rt isStream (resp_data response) = Some e"
  shows "handle429Error rt account response isStream sessionHash =
     ([MarkAccountRateLimited (get_prop account (js ''id'')) (js ''openai-responses'') sessionHash
         (resets_in_seconds_of rt e)],
      if markAccountRateLimited rt (get_prop account (js ''id'')) (js ''openai-responses'') sessionHash
           (resets_in_seconds_of rt e)
      then Some (resets_in_seconds_of rt e, e) else None)"
  by (simp add: handle429Error_def assms Let_def)

text \<open>
  C4 (amended). Let the upstream response have status 429 and let its body be read as \<open>e\<close>
  with \<open>e.error.resets_in_seconds = N\<close>, \<open>N\<close> truthy, and let the call of the scheduler
  resolve. Then the effects of the relay are exactly: one call
  \<open>markAccountRateLimited(account.id, 'openai-responses', sessionHash, N)\<close>, and after it the
  response 429 to the client with the body \<open>e\<close>, which carries \<open>resets_in_seconds: N\<close>.
\<close>

theorem C4_rate_limit_marked_then_429:
  assumes "resp_status response = 429"
    and "read_error_data rt (opt_get body (js ''stream'')) (resp_data response) = Some e"
    and "get_prop (get_prop e (js ''error'')) (js ''resets_in_seconds'') = N"
    and "truthy N"
    and "markAccountRateLimited rt (get_prop account (js ''id'')) (js ''openai-responses'') sessionHash N"
  shows "handleRequest_429 rt account response body sessionHash =
           Some ([MarkAccountRateLimited (get_prop account (js ''id'')) (js ''openai-responses'') sessionHash N,
                  Respond 429 e], Responded)"
proof -
  have r: "resets_in_seconds_of rt e = N"
    using resets_in_seconds_of_truthy[of e rt] assms(3,4) by simp
  have t: "truthy e"
    using truthy_get_prop_obj[of "get_prop e (js ''error'')" "js ''resets_in_seconds''"]
      truthy_get_prop_obj[of e "js ''error''"] assms(3,4) by simp
  have h: "handle429Error rt account response (opt_get body (js ''stream'')) sessionHash =
     ([MarkAccountRateLimited (get_prop account (js ''id'')) (js ''openai-responses'') sessionHash N],
      Some (N, e))"
    using handle429Error_read[OF assms(2), of account sessionHash] assms(5) by (simp add: r)
  show ?thesis
    by (simp add: handleRequest_429_def assms(1) h js_or_def t)
qed

lemma sse_lines: "js_split [0x0A] sse_text = [js ''data: '' @ body_120, [], []]"
  by (simp add: sse_text_def js_split_def body_120_def js_def)

lemma sse_includes: "find_sub (js ''data: '') sse_text = Some 0"
  by (simp add: sse_text_def js_def)

lemma sse_payload: "trim (drop 6 (js ''data: '' @ body_120)) = body_120"
  by (simp add: trim_def body_120_def js_def is_ws_def)

lemma body_120_ne: "body_120 \<noteq> []" "body_120 \<noteq> js ''[DONE]''"
  by (simp_all add: body_120_def js_def)

lemma sse_first_line:
  "sse_error_data demo_runtime ((js ''data: '' @ body_120) # lines) = rate_limited 120"
proof -
  have p: "JSON_parse demo_runtime body_120 = Some (rate_limited 120)"
    by (simp add: demo_runtime_def)
  have x: "prefix (js ''data: '') (js ''data: '' @ body_120)" by simp
  show ?thesis
    unfolding sse_error_data.simps sse_payload Let_def using x body_120_ne p by simp
qed

lemma read_sse_429:
  "read_error_data demo_runtime (opt_get stream_body (js ''stream'')) (resp_data sse_429) = Some (rate_limited 120)"
proof -
  have o: "opt_get stream_body (js ''stream'') = JBool True"
    by (simp add: stream_body_def opt_get_def nullish_def js_def)
  have d: "resp_data sse_429 = Readable (Some sse_text)" by (simp add: sse_429_def)
  have t: "truthy (rate_limited 120)" by (simp add: rate_limited_def)
  show ?thesis
    by (simp add: read_error_data_def o d sse_includes sse_lines sse_first_line t Let_def
        del: sse_error_data.simps)
qed

theorem C4_rate_limit_witness:
  "(resp_status sse_429 = 429 \<and>
    read_error_data demo_runtime (opt_get stream_body (js ''stream'')) (resp_data sse_429) = Some (rate_limited 120) \<and>
    get_prop (get_prop (rate_limited 120) (js ''error'')) (js ''resets_in_seconds'') = JNum (Fin 120) \<and>
    truthy (JNum (Fin 120)) \<and>
    markAccountRateLimited demo_runtime (get_prop demo_account (js ''id'')) (js ''openai-responses'')
      (JStr (js ''9f86d081'')) (JNum (Fin 120))) \<and>
   handleRequest_429 demo_runtime demo_account sse_429 stream_body (JStr (js ''9f86d081'')) =
     Some ([MarkAccountRateLimited (JStr (js ''acct-1'')) (js ''openai-responses'') (JStr (js ''9f86d081''))
              (JNum (Fin 120)),
            Respond 429 (rate_limited 120)], Responded)"
proof -
  have s: "resp_status sse_429 = 429" by (simp add: sse_429_def)
  have g: "get_prop (get_prop (rate_limited 120) (js ''error'')) (js ''resets_in_seconds'') = JNum (Fin 120)"
    by (simp add: rate_limited_def js_def)
  have t: "truthy (JNum (Fin 120))" by simp
  have m: "markAccountRateLimited demo_runtime (get_prop demo_account (js ''id'')) (js ''openai-responses'')
      (JStr (js ''9f86d081'')) (JNum (Fin 120))"
    by (simp add: demo_runtime_def)
  have i: "get_prop demo_account (js ''id'') = JStr (js ''acct-1'')"
    by (simp add: demo_account_def js_def)
  have c: "handleRequest_429 demo_runtime demo_account sse_429 stream_body (JStr (js ''9f86d081'')) =
     Some ([MarkAccountRateLimited (JStr (js ''acct-1'')) (js ''openai-responses'') (JStr (js ''9f86d081''))
              (JNum (Fin 120)),
            Respond 429 (rate_limited 120)], Responded)"
    using C4_rate_limit_marked_then_429[OF s read_sse_429 g t m] unfolding i .
  show ?thesis by (intro conjI s read_sse_429 g t m c)
qed

text \<open>
  C4 as stated fails for \<open>N = 0\<close>: \<open>resets_in_seconds\<close> is tested for truthiness, so the scheduler
  is called with \<open>null\<close> while the body sent to the client carries \<open>resets_in_seconds: 0\<close>.
\<close>

theorem C4_zero_seconds_counterexample:
  "handleRequest_429 demo_runtime demo_account (json_429 0) (JObj []) JNull =
     Some ([MarkAccountRateLimited (JStr (js ''acct-1'')) (js ''openai-responses'') JNull JNull,
            Respond 429 (rate_limited 0)], Responded) \<and>
   get_prop (get_prop (rate_limited 0) (js ''error'')) (js ''resets_in_seconds'') = JNum (Fin 0)"
  by (simp add: handleRequest_429_def handle429Error_def read_error_data_def resets_in_seconds_of_def
      json_429_def rate_limited_def demo_runtime_def demo_account_def typeof_object_def opt_get_def
      nullish_def js_or_def js_def Let_def)

text \<open>
  The call of the scheduler is not inside a \<open>try\<close>: when it rejects, no 429 response is sent
  by this branch.
\<close>

lemma scheduler_rejects_no_429:
  assumes "resp_status response = 429"
    and "\<And>a p h r. \<not> markAccountRateLimited rt a p h r"
  shows "\<exists>call. handleRequest_429 rt account response body sessionHash = Some ([call], Thrown)"
  using assms by (simp add: handleRequest_429_def handle429Error_def Let_def split: option.splits prod.splits)

end
